theory Spec2Isabelle
  imports Main "HOL-Library.Monad_Syntax"
begin

section \<open>Strings as sequences of UTF-16 code units\<close>

text \<open>
  A JavaScript string is a sequence of 16-bit code units; \<open>length\<close>, \<open>slice\<close> and the
  regular expressions of \<open>rules.ts\<close> (none has the \<open>u\<close> flag) all count code units.
  A code unit is modelled by its number.
\<close>

type_synonym jstr = "nat list"

definition ascii :: "string \<Rightarrow> jstr" where
  "ascii s = map of_char s"

text \<open>\<open>String.prototype.slice(a, b)\<close>: negative arguments count from the end, both are
  clamped to the string, and an empty string results when the end is not after the start.\<close>

definition slice :: "jstr \<Rightarrow> int \<Rightarrow> int \<Rightarrow> jstr" where
  "slice s a b =
     (let len = int (length s);
          from = (if a < 0 then max (len + a) 0 else min a len);
          to = (if b < 0 then max (len + b) 0 else min b len)
      in take (nat (to - from)) (drop (nat from) s))"

text \<open>White space and line terminators of ECMAScript: what \<open>\s\<close> matches and what
  \<open>trim\<close> strips.\<close>

definition isSpace :: "nat \<Rightarrow> bool" where
  "isSpace c \<longleftrightarrow>
     c = 9 \<or> c = 10 \<or> c = 11 \<or> c = 12 \<or> c = 13 \<or> c = 32 \<or> c = 160 \<or> c = 5760 \<or>
     (8192 \<le> c \<and> c \<le> 8202) \<or> c = 8232 \<or> c = 8233 \<or> c = 8239 \<or> c = 8287 \<or>
     c = 12288 \<or> c = 65279"

definition isDigit :: "nat \<Rightarrow> bool" where
  "isDigit c \<longleftrightarrow> 48 \<le> c \<and> c \<le> 57"

definition isLetter :: "nat \<Rightarrow> bool" where
  "isLetter c \<longleftrightarrow> (65 \<le> c \<and> c \<le> 90) \<or> (97 \<le> c \<and> c \<le> 122)"

definition isWordChar :: "nat \<Rightarrow> bool" where
  "isWordChar c \<longleftrightarrow> isLetter c \<or> isDigit c \<or> c = 95"

definition trim :: "jstr \<Rightarrow> jstr" where
  "trim s = rev (dropWhile isSpace (rev (dropWhile isSpace s)))"

text \<open>\<open>toLowerCase\<close>, on the strings this program applies it to: a match of \<open>CADENCE\<close>
  and a captured recipient phrase consist of ASCII letters, dots, hyphens and white space,
  where lower-casing only moves \<open>A\<close>..\<open>Z\<close>.\<close>

definition toLowerCase :: "jstr \<Rightarrow> jstr" where
  "toLowerCase s = map (\<lambda>c. if 65 \<le> c \<and> c \<le> 90 then c + 32 else c) s"

section \<open>The regular expressions\<close>

text \<open>
  The fragment of ECMAScript regular expressions that \<open>rules.ts\<close> uses: character
  classes, sequence, alternation, the greedy \<open>?\<close>, greedy repetition of a class
  (\<open>{lo,hi}\<close>, \<open>+\<close>), \<open>\b\<close>, \<open>$\<close> and a capture group. Every pattern has the
  \<open>i\<close> flag.
\<close>

datatype regex =
    Eps
  | Cls "nat \<Rightarrow> bool"
  | Seq regex regex
  | Alt regex regex
  | Opt regex
  | Rep "nat \<Rightarrow> bool" nat "nat option"
  | WordB
  | EndT
  | Grp regex

text \<open>Under the \<open>i\<close> flag two code units match when their canonical (upper-case) forms
  agree. The pattern characters here are ASCII letters and signs and the two currency
  signs, which only their own ASCII case variants canonicalise to.\<close>

definition canonicalize :: "nat \<Rightarrow> nat" where
  "canonicalize c = (if 97 \<le> c \<and> c \<le> 122 then c - 32 else c)"

definition chr_ci :: "nat \<Rightarrow> nat \<Rightarrow> bool" where
  "chr_ci p c \<longleftrightarrow> canonicalize c = canonicalize p"

fun lit :: "string \<Rightarrow> regex" where
  "lit [] = Eps"
| "lit [c] = Cls (chr_ci (of_char c))"
| "lit (c # cs) = Seq (Cls (chr_ci (of_char c))) (lit cs)"

fun seqs :: "regex list \<Rightarrow> regex" where
  "seqs [] = Eps"
| "seqs [r] = r"
| "seqs (r # rs) = Seq r (seqs rs)"

fun alts :: "regex list \<Rightarrow> regex" where
  "alts [] = Eps"
| "alts [r] = r"
| "alts (r # rs) = Alt r (alts rs)"

text \<open>
  Backtracking as a list of successes. A state of the matcher is the code unit before the
  current position (if any), the rest of the input from the current position on, the
  position, and the text captured by group 1 (if any). \<open>ends r st\<close> lists, in the order
  in which the backtracking matcher tries them, the states in which \<open>r\<close> can finish when
  started in \<open>st\<close>. The first element is the match the engine reports.
\<close>

type_synonym mstate = "nat option \<times> jstr \<times> nat \<times> jstr option"

text \<open>Greedy repetition of a class, between \<open>lo\<close> and \<open>hi\<close> times (\<open>None\<close>: no upper
  bound): one more iteration is tried before stopping here.\<close>

fun rep :: "(nat \<Rightarrow> bool) \<Rightarrow> nat \<Rightarrow> nat option \<Rightarrow> mstate \<Rightarrow> mstate list" where
  "rep p lo hi (pv, [], i, c) = (if lo = 0 then [(pv, [], i, c)] else [])"
| "rep p lo hi (pv, x # xs, i, c) =
     (if p x \<and> hi \<noteq> Some 0
      then rep p (lo - 1) (map_option (\<lambda>h. h - 1) hi) (Some x, xs, i + 1, c)
      else []) @
     (if lo = 0 then [(pv, x # xs, i, c)] else [])"

definition isWordOpt :: "nat option \<Rightarrow> bool" where
  "isWordOpt x = (case x of None \<Rightarrow> False | Some c \<Rightarrow> isWordChar c)"

definition headOpt :: "jstr \<Rightarrow> nat option" where
  "headOpt s = (case s of [] \<Rightarrow> None | x # _ \<Rightarrow> Some x)"

fun ends :: "regex \<Rightarrow> mstate \<Rightarrow> mstate list" where
  "ends Eps st = [st]"
| "ends (Cls p) (pv, [], i, c) = []"
| "ends (Cls p) (pv, x # xs, i, c) = (if p x then [(Some x, xs, i + 1, c)] else [])"
| "ends (Seq a b) st = concat (map (ends b) (ends a st))"
| "ends (Alt a b) st = ends a st @ ends b st"
| "ends (Opt a) st = ends a st @ [st]"
| "ends (Rep p lo hi) st = rep p lo hi st"
| "ends WordB (pv, rest, i, c) =
     (if isWordOpt pv \<noteq> isWordOpt (headOpt rest) then [(pv, rest, i, c)] else [])"
| "ends EndT (pv, rest, i, c) = (if rest = [] then [(pv, rest, i, c)] else [])"
| "ends (Grp a) (pv, rest, i, c) =
     map (\<lambda>(pv', rest', e, _). (pv', rest', e, Some (take (e - i) rest))) (ends a (pv, rest, i, c))"

text \<open>What \<open>exec\<close> returns: \<open>m.index\<close>, \<open>m[0]\<close> and \<open>m[1]\<close>.\<close>

record rmatch =
  m_index :: nat
  m_0 :: jstr
  m_1 :: "jstr option"

text \<open>One call of \<open>exec\<close> on a global regex whose \<open>lastIndex\<close> is the position \<open>i\<close>, before
  which \<open>pv\<close> stands and from which \<open>rest\<close> remains: the first position from \<open>i\<close> on,
  up to the end of the string, where the pattern matches. The result is the match and the state
  at its end, the next \<open>lastIndex\<close>.\<close>

fun execFrom :: "regex \<Rightarrow> nat option \<Rightarrow> jstr \<Rightarrow> nat \<Rightarrow> (rmatch \<times> nat option \<times> jstr \<times> nat) option" where
  "execFrom r pv [] i =
     (case ends r (pv, [], i, None) of
        [] \<Rightarrow> None
      | (pv', rest', e, c) # _ \<Rightarrow> Some (\<lparr>m_index = i, m_0 = [], m_1 = c\<rparr>, pv', rest', e))"
| "execFrom r pv (x # xs) i =
     (case ends r (pv, x # xs, i, None) of
        [] \<Rightarrow> execFrom r (Some x) xs (i + 1)
      | (pv', rest', e, c) # _ \<Rightarrow>
          Some (\<lparr>m_index = i, m_0 = take (e - i) (x # xs), m_1 = c\<rparr>, pv', rest', e))"

text \<open>The least number of code units a match of the pattern consumes.\<close>

fun minlen :: "regex \<Rightarrow> nat" where
  "minlen Eps = 0"
| "minlen (Cls p) = 1"
| "minlen (Seq a b) = minlen a + minlen b"
| "minlen (Alt a b) = min (minlen a) (minlen b)"
| "minlen (Opt a) = 0"
| "minlen (Rep p lo hi) = lo"
| "minlen WordB = 0"
| "minlen EndT = 0"
| "minlen (Grp a) = minlen a"

lemma rep_pos:
  "(pv', rest', e, c') \<in> set (rep p lo hi (pv, rest, i, c)) \<Longrightarrow>
     i + lo \<le> e \<and> e \<le> i + length rest \<and> rest' = drop (e - i) rest"
proof (induction rest arbitrary: pv i lo hi)
  case Nil
  then show ?case by (simp split: if_splits)
next
  case (Cons x xs)
  from Cons.prems consider
      (more) "(pv', rest', e, c') \<in> set (rep p (lo - 1) (map_option (\<lambda>h. h - 1) hi) (Some x, xs, i + 1, c))"
    | (stop) "lo = 0" "(pv', rest', e, c') = (pv, x # xs, i, c)"
    by (auto split: if_splits)
  then show ?case
  proof cases
    case more
    from Cons.IH [OF more] have "i + 1 + (lo - 1) \<le> e" "e \<le> i + 1 + length xs"
      "rest' = drop (e - (i + 1)) xs"
      by simp_all
    moreover from this have "e - i = Suc (e - (i + 1))" by linarith
    ultimately show ?thesis by simp
  next
    case stop
    then show ?thesis by simp
  qed
qed

lemma ends_pos:
  "(pv', rest', e, c') \<in> set (ends r (pv, rest, i, c)) \<Longrightarrow>
     i + minlen r \<le> e \<and> e \<le> i + length rest \<and> rest' = drop (e - i) rest"
proof (induction r arbitrary: pv rest i c pv' rest' e c')
  case Eps
  then show ?case by simp
next
  case (Cls p)
  then show ?case by (cases rest) (auto split: if_splits)
next
  case (Seq a b)
  from Seq.prems obtain st where st: "st \<in> set (ends a (pv, rest, i, c))"
    and fin: "(pv', rest', e, c') \<in> set (ends b st)"
    by auto
  obtain pv1 rest1 e1 c1 where st_eq: "st = (pv1, rest1, e1, c1)"
    by (cases st) auto
  from st st_eq have one: "i + minlen a \<le> e1" "e1 \<le> i + length rest" "rest1 = drop (e1 - i) rest"
    using Seq.IH(1) by blast+
  from fin st_eq have two: "e1 + minlen b \<le> e" "e \<le> e1 + length rest1" "rest' = drop (e - e1) rest1"
    using Seq.IH(2) by blast+
  from one two have "e - e1 + (e1 - i) = e - i" by linarith
  with one two show ?case by simp
next
  case (Alt a b)
  from Alt.prems have "(pv', rest', e, c') \<in> set (ends a (pv, rest, i, c))
      \<or> (pv', rest', e, c') \<in> set (ends b (pv, rest, i, c))"
    by simp
  then show ?case
    using Alt.IH(1) [of pv' rest' e c' pv rest i c] Alt.IH(2) [of pv' rest' e c' pv rest i c]
    by auto
next
  case (Opt a)
  from Opt.prems have "(pv', rest', e, c') \<in> set (ends a (pv, rest, i, c))
      \<or> (pv', rest', e, c') = (pv, rest, i, c)"
    by auto
  then show ?case
    using Opt.IH [of pv' rest' e c' pv rest i c] by auto
next
  case (Rep p lo hi)
  then show ?case by (auto dest: rep_pos)
next
  case WordB
  then show ?case by (simp split: if_splits)
next
  case EndT
  then show ?case by (simp split: if_splits)
next
  case (Grp a)
  from Grp.prems obtain c0 where "(pv', rest', e, c0) \<in> set (ends a (pv, rest, i, c))"
    by auto
  from Grp.IH [OF this] show ?case by simp
qed

lemma execFrom_pos:
  "execFrom r pv rest i = Some (m, pv', rest', e) \<Longrightarrow>
     i \<le> m_index m \<and> m_index m + minlen r \<le> e \<and> e \<le> i + length rest
     \<and> length rest' = i + length rest - e
     \<and> length (m_0 m) = e - m_index m"
proof (induction rest arbitrary: pv i)
  case Nil
  show ?case
  proof (cases "ends r (pv, [], i, None)")
    case Nil
    with Nil.prems show ?thesis by simp
  next
    case (Cons st sts)
    obtain pv1 rest1 e1 c1 where st_eq: "st = (pv1, rest1, e1, c1)"
      by (cases st) auto
    with Cons Nil.prems have eqs: "m_index m = i" "pv' = pv1" "rest' = rest1" "e = e1"
      "m_0 m = []"
      by auto
    have "(pv1, rest1, e1, c1) \<in> set (ends r (pv, [], i, None))"
      using Cons st_eq by simp
    from ends_pos [OF this] eqs show ?thesis by simp
  qed
next
  case (Cons x xs)
  show ?case
  proof (cases "ends r (pv, x # xs, i, None)")
    case Nil
    with Cons.prems have "execFrom r (Some x) xs (i + 1) = Some (m, pv', rest', e)"
      by simp
    from Cons.IH [OF this] show ?thesis by simp
  next
    case (Cons st sts)
    obtain pv1 rest1 e1 c1 where st_eq: "st = (pv1, rest1, e1, c1)"
      by (cases st) auto
    with Cons Cons.prems have eqs: "m_index m = i" "pv' = pv1" "rest' = rest1" "e = e1"
      "m_0 m = take (e1 - i) (x # xs)"
      by auto
    have "(pv1, rest1, e1, c1) \<in> set (ends r (pv, x # xs, i, None))"
      using Cons st_eq by simp
    from ends_pos [OF this] eqs show ?thesis by (auto simp: min_def)
  qed
qed

text \<open>
  The loop \<open>while ((m = r.exec(text))) ...\<close>: every match moves \<open>lastIndex\<close> to its end.
  After an empty match \<open>lastIndex\<close> stays where it is and \<open>exec\<close> finds the same match
  again, so the loop never ends: that is the result \<open>None\<close>.
\<close>

function execAllFrom :: "regex \<Rightarrow> nat option \<Rightarrow> jstr \<Rightarrow> nat \<Rightarrow> rmatch list option" where
  "execAllFrom r pv rest i =
     (case execFrom r pv rest i of
        None \<Rightarrow> Some []
      | Some (m, pv', rest', e) \<Rightarrow>
          if e \<le> m_index m then None
          else map_option (\<lambda>ms. m # ms) (execAllFrom r pv' rest' e))"
  by pat_completeness auto
termination
proof (relation "measure (\<lambda>(r, pv, rest, i). length rest)")
  show "wf (measure (\<lambda>(r, pv, rest, i). length rest))" by simp
next
  fix r :: regex and pv :: "nat option" and rest :: jstr and i :: nat
    and x2 m y pv' z rest' e
  assume "execFrom r pv rest i = Some x2" "(m, y) = x2" "(pv', z) = y" "(rest', e) = z"
    "\<not> e \<le> m_index m"
  then have "execFrom r pv rest i = Some (m, pv', rest', e)" by simp
  from execFrom_pos [OF this] \<open>\<not> e \<le> m_index m\<close> have "length rest' < length rest"
    by linarith
  then show "((r, pv', rest', e), r, pv, rest, i) \<in> measure (\<lambda>(r, pv, rest, i). length rest)"
    by simp
qed

definition execAll :: "regex \<Rightarrow> jstr \<Rightarrow> rmatch list option" where
  "execAll r s = execAllFrom r None s 0"

text \<open>\<open>countMatches\<close> and \<open>findAll\<close> (rules.ts 46-71): the regexes all carry the
  \<open>g\<close> flag, so the copy made by \<open>new RegExp\<close> is the same pattern with
  \<open>lastIndex = 0\<close>.\<close>

definition countMatches :: "regex \<Rightarrow> jstr \<Rightarrow> nat option" where
  "countMatches regex text = map_option length (execAll regex text)"

definition findAll :: "regex \<Rightarrow> jstr \<Rightarrow> (nat \<times> jstr) list option" where
  "findAll regex text = map_option (map (\<lambda>m. (m_index m, m_0 m))) (execAll regex text)"

text \<open>The first element of \<open>text.match(regex)\<close> for a global regex, if any.\<close>

definition firstMatch :: "regex \<Rightarrow> jstr \<Rightarrow> jstr option" where
  "firstMatch regex text = map_option (\<lambda>(m, _). m_0 m) (execFrom regex None text 0)"

subsection \<open>The regex bank (rules.ts 15-41)\<close>

definition hyphenOrSpace :: "nat \<Rightarrow> bool" where
  "hyphenOrSpace c \<longleftrightarrow> c = 45 \<or> isSpace c"

definition phraseChar :: "nat \<Rightarrow> bool" where
  "phraseChar c \<longleftrightarrow> isLetter c \<or> isSpace c \<or> c = 45"

definition currency :: "nat \<Rightarrow> bool" where
  "currency c \<longleftrightarrow> c = 36 \<or> c = 163 \<or> c = 8364"

definition RE_AUTO_RENEW :: regex where
  "RE_AUTO_RENEW =
     Grp (Alt (seqs [lit ''auto'', Opt (Cls hyphenOrSpace), lit ''renew'', Opt (lit ''al'')])
              (seqs [lit ''automatically'', Rep isSpace 1 None, lit ''renew'', Opt (lit ''s'')]))"

definition RE_CANCELLATION :: regex where
  "RE_CANCELLATION =
     Alt (seqs [WordB, lit ''cancel'', Opt (lit ''lation''), WordB])
         (seqs [WordB, lit ''terminate'', WordB])"

definition RE_ARBITRATION :: regex where
  "RE_ARBITRATION =
     alts [seqs [WordB, lit ''arbitration'', WordB],
           seqs [WordB, lit ''AAA'', WordB],
           seqs [WordB, lit ''JAMS'', WordB]]"

definition RE_CLASS_ACTION :: regex where
  "RE_CLASS_ACTION =
     seqs [WordB, lit ''class'', Rep isSpace 1 None, lit ''action'', WordB,
           Rep (\<lambda>c. True) 0 (Some 80), WordB,
           Grp (alts [lit ''waiver'',
                      Seq (lit ''prohibit'') (Opt (lit ''ed'')),
                      lit ''release'',
                      seqs [lit ''not'', Rep isSpace 1 None, lit ''allowed'']]),
           WordB]"

definition RE_FEES :: regex where
  "RE_FEES =
     alts [seqs [WordB, lit ''fee'', Opt (lit ''s''), WordB],
           seqs [WordB, lit ''charge'', Opt (Alt (lit ''s'') (lit ''d'')), WordB],
           seqs [WordB, lit ''billing'', WordB]]"

definition RE_PRICE :: regex where
  "RE_PRICE =
     seqs [Grp (Cls currency), Opt (Cls isSpace), Rep isDigit 1 (Some 4),
           Opt (Seq (lit ''.'') (Rep isDigit 2 (Some 2)))]"

definition RE_CADENCE :: regex where
  "RE_CADENCE =
     seqs [WordB,
           Grp (alts [lit ''month'', Seq (lit ''mo'') (Opt (lit ''.'')), lit ''monthly'',
                      lit ''year'', lit ''yr'', Seq (lit ''annual'') (Opt (lit ''ly'')),
                      lit ''week'', lit ''wk'', lit ''day'', lit ''daily'']),
           WordB]"

definition RE_THIRD_PARTY :: regex where
  "RE_THIRD_PARTY = seqs [WordB, lit ''third'', Opt (Cls hyphenOrSpace), lit ''party'', WordB]"

definition shareWord :: regex where
  "shareWord = Seq (lit ''share'') (Opt (alts [lit ''s'', lit ''d'', lit ''ing'']))"

definition sellWord :: regex where
  "sellWord = Seq (lit ''sell'') (Opt (alts [lit ''s'', lit ''ing'', lit ''sold'']))"

definition RE_SHARE :: regex where
  "RE_SHARE = seqs [WordB, shareWord, WordB]"

definition RE_SELL :: regex where
  "RE_SELL = seqs [WordB, sellWord, WordB]"

definition RE_AFFILIATE :: regex where
  "RE_AFFILIATE = seqs [WordB, lit ''affiliate'', Opt (lit ''s''), WordB]"

definition RE_PARTNER :: regex where
  "RE_PARTNER = seqs [WordB, lit ''partner'', Opt (lit ''s''), WordB]"

definition RE_ADVERTISING :: regex where
  "RE_ADVERTISING =
     seqs [WordB, lit ''advertis'', Alt (lit ''ing'') (Seq (lit ''er'') (Opt (lit ''s''))), WordB]"

definition RE_ANALYTICS :: regex where
  "RE_ANALYTICS = seqs [WordB, lit ''analytic'', Alt (lit ''s'') (lit ''al''), WordB]"

definition RE_SHARE_WITH :: regex where
  "RE_SHARE_WITH =
     seqs [WordB, shareWord, Rep isSpace 1 None, Alt (lit ''with'') (lit ''to''),
           Rep isSpace 1 None, Grp (Seq (Cls isLetter) (Rep phraseChar 1 (Some 40)))]"

definition RE_SELL_TO :: regex where
  "RE_SELL_TO =
     seqs [WordB, sellWord, Rep isSpace 1 None, Alt (lit ''to'') (lit ''with''),
           Rep isSpace 1 None, Grp (Seq (Cls isLetter) (Rep phraseChar 1 (Some 40)))]"

definition RE_OUR_SOMETHING_PARTNERS :: regex where
  "RE_OUR_SOMETHING_PARTNERS =
     seqs [WordB, lit ''our'', Rep isSpace 1 None,
           Grp (seqs [Cls isLetter, Rep phraseChar 0 (Some 20), Rep isSpace 1 None,
                      lit ''partners'']),
           WordB]"

section \<open>Data model (types.ts)\<close>

datatype RiskType = auto_renewal | cancellation | arbitration | class_action | fees | data_sharing

record Hit =
  h_type :: RiskType
  h_start :: int
  h_end :: int
  h_text :: jstr
  h_snippet :: jstr

datatype Severity = Low | Medium | High

text \<open>The keys of \<open>Heatmap.counts\<close> that \<open>buildHeatmap\<close> fills in.\<close>

record Counts =
  third_party :: nat
  share :: nat
  sell :: nat
  affiliate :: nat
  partner :: nat
  advertising :: nat
  analytics :: nat

record Recipient =
  phrase :: jstr
  count :: nat

record Heatmap =
  counts :: Counts
  level :: Severity
  topRecipients :: "Recipient list"

record RulesResult =
  hits :: "Hit list"
  severity :: Severity
  hero :: "jstr option"
  heatmap :: Heatmap

section \<open>Tunables (rules.ts 7-10)\<close>

definition SNIPPET_WINDOW :: int where
  "SNIPPET_WINDOW = 250"

definition MAX_HIGHLIGHTS :: nat where
  "MAX_HIGHLIGHTS = 50"

section \<open>Array.prototype.sort\<close>

text \<open>
  \<open>sort\<close> with a comparator is stable. For a comparator that orders by keys, as both
  comparators of \<open>rules.ts\<close> do, the result is the one stable sorted arrangement, which
  insertion from the right computes: an element goes before the first one it does not
  compare greater than.
\<close>

fun insertBy :: "('a \<Rightarrow> 'a \<Rightarrow> int) \<Rightarrow> 'a \<Rightarrow> 'a list \<Rightarrow> 'a list" where
  "insertBy cmp x [] = [x]"
| "insertBy cmp x (y # ys) = (if cmp x y \<le> 0 then x # y # ys else y # insertBy cmp x ys)"

definition jsSort :: "('a \<Rightarrow> 'a \<Rightarrow> int) \<Rightarrow> 'a list \<Rightarrow> 'a list" where
  "jsSort cmp xs = foldr (insertBy cmp) xs []"

section \<open>Snippets (rules.ts 74-137)\<close>

definition ellipsis :: jstr where
  "ellipsis = [8230]"

definition sentencePunct :: "nat \<Rightarrow> bool" where
  "sentencePunct c \<longleftrightarrow> c = 46 \<or> c = 33 \<or> c = 63"

definition sentenceEndings :: regex where
  "sentenceEndings = Seq (Cls sentencePunct) (Alt (Cls isSpace) EndT)"

text \<open>The array \<open>boundaries\<close> (lines 90-97): 0, the position after the punctuation of
  every sentence ending, and the length of the region.\<close>

definition sentenceBoundaries :: "jstr \<Rightarrow> int list option" where
  "sentenceBoundaries region =
     map_option (\<lambda>ms. [0] @ map (\<lambda>m. int (m_index m) + 1) ms @ [int (length region)])
       (execAll sentenceEndings region)"

text \<open>The \<open>for\<close> loop over adjacent boundaries (lines 104-113), which stops at the first
  pair that encloses the hit.\<close>

fun findSentence :: "int list \<Rightarrow> int \<Rightarrow> (int \<times> int) option" where
  "findSentence (boundaryStart # boundaryEnd # bs) hitOffsetInRegion =
     (if boundaryStart \<le> hitOffsetInRegion \<and> hitOffsetInRegion < boundaryEnd
      then Some (boundaryStart, boundaryEnd)
      else findSentence (boundaryEnd # bs) hitOffsetInRegion)"
| "findSentence bs hitOffsetInRegion = None"

text \<open>Lines 84-123: the sentence that holds the hit, trimmed, or the window around the hit
  when that is shorter than 30. It is returned with the offset that line 127 computes,
  \<open>start - searchStart - sentenceStart\<close>: where the hit starts in the sentence as it stood in
  the region, before trimming.\<close>

definition extractSentence :: "jstr \<Rightarrow> int \<Rightarrow> int \<Rightarrow> int \<Rightarrow> (jstr \<times> int) option" where
  "extractSentence text start end window =
     (let searchWindow = 500;
          searchStart = max 0 (start - searchWindow);
          searchEnd = min (int (length text)) (end + searchWindow);
          region = slice text searchStart searchEnd
      in case sentenceBoundaries region of
           None \<Rightarrow> None
         | Some boundaries \<Rightarrow>
             let hitOffsetInRegion = start - searchStart;
                 (sentenceStart, sentenceEnd) =
                   (case findSentence boundaries hitOffsetInRegion of
                      None \<Rightarrow> (0, int (length region))
                    | Some found \<Rightarrow> found);
                 sentence = trim (slice region sentenceStart sentenceEnd);
                 sentence' =
                   (if length sentence < 30
                    then trim (slice text (max 0 (start - window))
                                 (min (int (length text)) (end + window)))
                    else sentence)
             in Some (sentence', start - searchStart - sentenceStart))"

text \<open>Lines 126-134. The second test reads the length of the sentence after it has been
  cut and prefixed, as the source does.\<close>

definition limitSentence :: "jstr \<Rightarrow> int \<Rightarrow> jstr" where
  "limitSentence sentence hitOffset =
     (if 500 < length sentence then
        let excerptStart = max 0 (hitOffset - 250);
            excerptEnd = min (int (length sentence)) (hitOffset + 250);
            cut = trim (slice sentence excerptStart excerptEnd);
            prefixed = (if 0 < excerptStart then ellipsis @ cut else cut)
        in if excerptEnd < int (length prefixed) then prefixed @ ellipsis else prefixed
      else sentence)"

definition makeSnippet :: "jstr \<Rightarrow> int \<Rightarrow> int \<Rightarrow> int \<Rightarrow> jstr option" where
  "makeSnippet text start end window =
     map_option (\<lambda>(sentence, hitOffset). limitSentence sentence hitOffset)
       (extractSentence text start end window)"

section \<open>Overlap deduplication (rules.ts 139-164)\<close>

text \<open>The comparator \<open>a.start - b.start || b.end - a.end\<close>.\<close>

definition cmpHits :: "Hit \<Rightarrow> Hit \<Rightarrow> int" where
  "cmpHits a b = (if h_start a - h_start b \<noteq> 0 then h_start a - h_start b else h_end b - h_end a)"

text \<open>One round of the loop over the sorted hits; \<open>out\<close> is the array built so far.\<close>

definition dedupeStep :: "Hit list \<Rightarrow> Hit \<Rightarrow> Hit list" where
  "dedupeStep out h =
     (if out = [] then out @ [h]
      else
        let lst = last out;
            overlaps = (h_start h \<le> h_end lst \<and> h_end h \<ge> h_start lst)
        in if \<not> overlaps then out @ [h]
           else
             let lastLen = h_end lst - h_start lst;
                 thisLen = h_end h - h_start h
             in if thisLen > lastLen then butlast out @ [h] else out)"

definition dedupeOverlaps :: "Hit list \<Rightarrow> Hit list" where
  "dedupeOverlaps hs = foldl dedupeStep [] (jsSort cmpHits hs)"

section \<open>Price and cadence near a hit (rules.ts 167-184)\<close>

record Near =
  price :: "jstr option"
  cadence :: "jstr option"

text \<open>A value of type \<open>string | undefined\<close> is truthy when it is a non-empty string.\<close>

fun truthy :: "jstr option \<Rightarrow> bool" where
  "truthy None = False"
| "truthy (Some s) = (s \<noteq> [])"

definition findPriceAndCadenceNearby :: "jstr \<Rightarrow> int \<Rightarrow> int \<Rightarrow> int \<Rightarrow> Near" where
  "findPriceAndCadenceNearby text start end window =
     (let a = max 0 (start - window);
          b = min (int (length text)) (end + window);
          area = slice text a b;
          price = firstMatch RE_PRICE area;
          cadence = firstMatch RE_CADENCE area
      in \<lparr>price = (if truthy price then map_option trim price else None),
          cadence = (if truthy cadence then map_option (\<lambda>c. trim (toLowerCase c)) cadence
                     else None)\<rparr>)"

section \<open>Severity (rules.ts 187-191, 245-266)\<close>

definition scoreToSeverity :: "int \<Rightarrow> Severity" where
  "scoreToSeverity score = (if score \<ge> 4 then High else if score \<ge> 2 then Medium else Low)"

definition has :: "Hit list \<Rightarrow> RiskType \<Rightarrow> bool" where
  "has hs t = list_ex (\<lambda>h. h_type h = t) hs"

definition computeSeverity :: "Hit list \<Rightarrow> jstr \<Rightarrow> Severity" where
  "computeSeverity hs fullText =
     (let score0 = (0::int);
          auto = find (\<lambda>h. h_type h = auto_renewal) hs;
          score1 =
            (case auto of
               None \<Rightarrow> score0
             | Some au \<Rightarrow>
                 let near = findPriceAndCadenceNearby fullText (h_start au) (h_end au) 160
                 in score0 + (if truthy (price near) \<or> truthy (cadence near) then 3 else 2));
          score2 = (if has hs arbitration then score1 + 3 else score1);
          score3 = (if has hs class_action then score2 + 2 else score2);
          score4 = (if has hs cancellation then score3 + 1 else score3);
          score5 = (if has hs fees then score4 + 1 else score4)
      in scoreToSeverity score5)"

section \<open>Hero line (rules.ts 268-293)\<close>

definition HERO_FEES :: jstr where
  "HERO_FEES = [55357, 56496] @ ascii '' Fees/charges apply - review billing terms carefully.''"

definition HERO_CANCELLATION :: jstr where
  "HERO_CANCELLATION =
     [55357, 56580] @ ascii '' Cancellation restrictions found - check how to cancel.''"

definition HERO_AUTO_RENEWAL :: jstr where
  "HERO_AUTO_RENEWAL =
     [9888, 65039] @ ascii '' Auto-renewal detected. Review cancellation terms.''"

text \<open>\<open>[near.price, near.cadence].filter(Boolean).join("/")\<close>\<close>

fun joinSlash :: "jstr list \<Rightarrow> jstr" where
  "joinSlash [] = []"
| "joinSlash [x] = x"
| "joinSlash (x # xs) = x @ [47] @ joinSlash xs"

definition selectHero :: "Hit list \<Rightarrow> jstr \<Rightarrow> jstr option" where
  "selectHero hs fullText =
     (if list_ex (\<lambda>h. h_type h = fees) hs then Some HERO_FEES
      else if list_ex (\<lambda>h. h_type h = cancellation) hs then Some HERO_CANCELLATION
      else case find (\<lambda>h. h_type h = auto_renewal) hs of
             None \<Rightarrow> None
           | Some au \<Rightarrow>
               let near = findPriceAndCadenceNearby fullText (h_start au) (h_end au) 160
               in if truthy (price near) \<or> truthy (cadence near) then
                    let part = joinSlash (map the (filter truthy [price near, cadence near]))
                    in Some (ascii ''Auto-renews '' @ (if part \<noteq> [] then ascii ''at '' @ part else [])
                             @ ascii '' '' @ [8212] @ ascii '' set a cancel reminder.'')
                  else Some HERO_AUTO_RENEWAL)"

section \<open>Heatmap and recipients (rules.ts 195-241)\<close>

text \<open>\<open>replace(/\s+/g, " ")\<close>: every run of white space becomes one space.\<close>

function collapseSpaces :: "jstr \<Rightarrow> jstr" where
  "collapseSpaces [] = []"
| "collapseSpaces (c # cs) =
     (if isSpace c then 32 # collapseSpaces (dropWhile isSpace cs) else c # collapseSpaces cs)"
  by pat_completeness auto
termination
  by (relation "measure length") (auto simp: le_imp_less_Suc length_dropWhile_le)

text \<open>A \<open>Map\<close> keeps its keys in the order of their first insertion; \<open>set\<close> on a key
  that is present replaces the value where it stands.\<close>

fun mapSet :: "('k \<times> 'v) list \<Rightarrow> 'k \<Rightarrow> 'v \<Rightarrow> ('k \<times> 'v) list" where
  "mapSet [] k v = [(k, v)]"
| "mapSet ((k', v') # m) k v = (if k' = k then (k, v) # m else (k', v') # mapSet m k v)"

definition normalizePhrase :: "jstr \<Rightarrow> jstr" where
  "normalizePhrase ph = trim (collapseSpaces (toLowerCase ph))"

definition bump :: "(jstr \<times> nat) list \<Rightarrow> jstr option \<Rightarrow> (jstr \<times> nat) list" where
  "bump topMap ph =
     (if \<not> truthy ph then topMap
      else
        let p = normalizePhrase (the ph)
        in if p = [] then topMap
           else mapSet topMap p ((case map_of topMap p of None \<Rightarrow> 0 | Some n \<Rightarrow> n) + 1))"

text \<open>The captures \<open>m[1]\<close> of the three \<open>while\<close> statements of lines 227-233, in the order of the calls
  of \<open>bump\<close>.\<close>

definition recipientCaptures :: "jstr \<Rightarrow> jstr option list option" where
  "recipientCaptures text =
     do {
       shareWith \<leftarrow> execAll RE_SHARE_WITH text;
       sellTo \<leftarrow> execAll RE_SELL_TO text;
       partners \<leftarrow> execAll RE_OUR_SOMETHING_PARTNERS text;
       Some (map m_1 shareWith @ map m_1 sellTo @ map m_1 partners)
     }"

definition heatmapCounts :: "jstr \<Rightarrow> Counts option" where
  "heatmapCounts text =
     do {
       n1 \<leftarrow> countMatches RE_THIRD_PARTY text;
       n2 \<leftarrow> countMatches RE_SHARE text;
       n3 \<leftarrow> countMatches RE_SELL text;
       n4 \<leftarrow> countMatches RE_AFFILIATE text;
       n5 \<leftarrow> countMatches RE_PARTNER text;
       n6 \<leftarrow> countMatches RE_ADVERTISING text;
       n7 \<leftarrow> countMatches RE_ANALYTICS text;
       Some \<lparr>third_party = n1, share = n2, sell = n3, affiliate = n4, partner = n5,
             advertising = n6, analytics = n7\<rparr>
     }"

definition total :: "Counts \<Rightarrow> nat" where
  "total c = third_party c + share c + sell c + affiliate c + partner c + advertising c
             + analytics c"

definition buildHeatmap :: "jstr \<Rightarrow> Heatmap option" where
  "buildHeatmap text =
     do {
       cs \<leftarrow> heatmapCounts text;
       let lvl = (if total cs \<ge> 15 then High else if total cs \<ge> 5 then Medium else Low);
       caps \<leftarrow> recipientCaptures text;
       let topMap = foldl bump [] caps;
       let top = map (\<lambda>(ph, n). \<lparr>phrase = ph, count = n\<rparr>)
                   (take 5 (jsSort (\<lambda>a b. int (snd b) - int (snd a)) topMap));
       Some \<lparr>counts = cs, level = lvl, topRecipients = top\<rparr>
     }"

section \<open>Main entry (rules.ts 297-332)\<close>

fun pushHits :: "jstr \<Rightarrow> RiskType \<Rightarrow> (nat \<times> jstr) list \<Rightarrow> Hit list \<Rightarrow> Hit list option" where
  "pushHits text ty [] hs = Some hs"
| "pushHits text ty ((index, match) # ms) hs =
     (let start = int index;
          end = int index + int (length match)
      in case makeSnippet text start end SNIPPET_WINDOW of
           None \<Rightarrow> None
         | Some sn \<Rightarrow>
             pushHits text ty ms
               (hs @ [\<lparr>h_type = ty, h_start = start, h_end = end, h_text = match, h_snippet = sn\<rparr>]))"

definition pushAll :: "jstr \<Rightarrow> RiskType \<Rightarrow> regex \<Rightarrow> Hit list \<Rightarrow> Hit list option" where
  "pushAll text ty regex hs =
     (case findAll regex text of None \<Rightarrow> None | Some ms \<Rightarrow> pushHits text ty ms hs)"

definition rawHits :: "jstr \<Rightarrow> Hit list option" where
  "rawHits text =
     do {
       hs1 \<leftarrow> pushAll text auto_renewal RE_AUTO_RENEW [];
       hs2 \<leftarrow> pushAll text arbitration RE_ARBITRATION hs1;
       hs3 \<leftarrow> pushAll text class_action RE_CLASS_ACTION hs2;
       hs4 \<leftarrow> pushAll text cancellation RE_CANCELLATION hs3;
       pushAll text fees RE_FEES hs4
     }"

definition rulesScan :: "jstr \<Rightarrow> RulesResult option" where
  "rulesScan text =
     do {
       hs \<leftarrow> rawHits text;
       let cleaned = dedupeOverlaps hs;
       let cleaned = (if length cleaned > MAX_HIGHLIGHTS then take MAX_HIGHLIGHTS cleaned
                      else cleaned);
       hm \<leftarrow> buildHeatmap text;
       let sev = computeSeverity cleaned text;
       let hro = selectHero cleaned text;
       Some \<lparr>hits = cleaned, severity = sev, hero = hro, heatmap = hm\<rparr>
     }"

section \<open>Highlights in the page (content.ts 8-10, 56-70)\<close>

text \<open>
  The page as a tree of nodes. An element carries a number that stands for the identity of
  the node object, its local name, its attributes and its child nodes. A document is given by
  the child nodes of its root element \<open>html\<close>, so every node in it has a parent.
\<close>

datatype node =
    Text jstr
  | Element nat string "(string \<times> string) list" "node list"

type_synonym document = "node list"

definition MARK_ATTR :: string where
  "MARK_ATTR = ''data-tc''"

definition MARK_ATTR_VAL :: string where
  "MARK_ATTR_VAL = ''risk''"

text \<open>The selector \<open>mark[data-tc="risk"]\<close>: the type selector \<open>mark\<close> matches an element
  by its local name, the attribute selector by the value of the attribute.\<close>

definition isOurMark :: "string \<Rightarrow> (string \<times> string) list \<Rightarrow> bool" where
  "isOurMark localName attrs \<longleftrightarrow> localName = ''mark'' \<and> map_of attrs MARK_ATTR = Some MARK_ATTR_VAL"

text \<open>\<open>document.querySelectorAll('mark[data-tc="risk"]')\<close>: the marks in document order,
  as a static list.\<close>

fun querySelectorAll :: "document \<Rightarrow> nat list" where
  "querySelectorAll [] = []"
| "querySelectorAll (Text t # ns) = querySelectorAll ns"
| "querySelectorAll (Element i localName attrs cs # ns) =
     (if isOurMark localName attrs then [i] else []) @ querySelectorAll cs @ querySelectorAll ns"

text \<open>The elements that are in the document.\<close>

fun elementIds :: "document \<Rightarrow> nat list" where
  "elementIds [] = []"
| "elementIds (Text t # ns) = elementIds ns"
| "elementIds (Element i localName attrs cs # ns) = i # elementIds cs @ elementIds ns"

text \<open>The text of the document, in document order.\<close>

fun textContent :: "document \<Rightarrow> jstr" where
  "textContent [] = []"
| "textContent (Text t # ns) = t @ textContent ns"
| "textContent (Element i localName attrs cs # ns) = textContent cs @ textContent ns"

text \<open>Lines 65-66: the children of the mark are moved before it, in their order, and the
  mark is removed from its parent.\<close>

fun unwrap :: "nat \<Rightarrow> document \<Rightarrow> document" where
  "unwrap m [] = []"
| "unwrap m (Text t # ns) = Text t # unwrap m ns"
| "unwrap m (Element i localName attrs cs # ns) =
     (if i = m then cs @ ns else Element i localName attrs (unwrap m cs) # unwrap m ns)"

text \<open>One round of \<open>forEach\<close> (lines 61-68). A mark has no parent when it is no longer in
  the document.\<close>

definition clearStep :: "document \<times> nat \<Rightarrow> nat \<Rightarrow> document \<times> nat" where
  "clearStep st mark =
     (case st of (doc, removed) \<Rightarrow>
        if mark \<notin> set (elementIds doc) then (doc, removed)
        else (unwrap mark doc, removed + 1))"

definition clearHighlights :: "document \<Rightarrow> document \<times> nat" where
  "clearHighlights doc = foldl clearStep (doc, 0) (querySelectorAll doc)"

section \<open>Unfolding rules\<close>

lemmas char_defs = isSpace_def isDigit_def isLetter_def isWordChar_def chr_ci_def canonicalize_def
  isWordOpt_def headOpt_def hyphenOrSpace_def phraseChar_def currency_def sentencePunct_def

lemmas regex_defs = RE_AUTO_RENEW_def RE_CANCELLATION_def RE_ARBITRATION_def RE_CLASS_ACTION_def
  RE_FEES_def RE_PRICE_def RE_CADENCE_def RE_THIRD_PARTY_def shareWord_def sellWord_def
  RE_SHARE_def RE_SELL_def RE_AFFILIATE_def RE_PARTNER_def RE_ADVERTISING_def RE_ANALYTICS_def
  RE_SHARE_WITH_def RE_SELL_TO_def RE_OUR_SOMETHING_PARTNERS_def sentenceEndings_def

lemmas match_defs = ascii_def findAll_def countMatches_def firstMatch_def execAll_def

lemmas dedupe_defs = dedupeOverlaps_def jsSort_def dedupeStep_def cmpHits_def

lemmas string_defs = slice_def trim_def toLowerCase_def

lemmas snippet_defs = makeSnippet_def extractSentence_def sentenceBoundaries_def limitSentence_def
  SNIPPET_WINDOW_def ellipsis_def

lemmas heatmap_defs = buildHeatmap_def heatmapCounts_def recipientCaptures_def total_def bump_def
  normalizePhrase_def

lemmas severity_defs = computeSeverity_def selectHero_def has_def scoreToSeverity_def
  findPriceAndCadenceNearby_def

lemmas scan_defs = rulesScan_def rawHits_def pushAll_def MAX_HIGHLIGHTS_def

section \<open>General lemmas\<close>

subsection \<open>Every iteration over the matches ends\<close>


lemma execAllFrom_total:
  assumes "0 < minlen r"
  shows "\<exists>ms. execAllFrom r pv rest i = Some ms"
  using assms
proof (induction r pv rest i rule: execAllFrom.induct)
  case (1 r pv rest i)
  show ?case
  proof (cases "execFrom r pv rest i")
    case None
    then show ?thesis by (subst execAllFrom.simps) simp
  next
    case (Some x)
    obtain m pv' rest' e where x: "x = (m, pv', rest', e)"
      by (cases x) auto
    from Some x have ex: "execFrom r pv rest i = Some (m, pv', rest', e)" by simp
    from execFrom_pos [OF ex] "1.prems" have adv: "\<not> e \<le> m_index m" by linarith
    from "1.IH" [OF Some _ _ _ adv, of "(pv', rest', e)" pv' "(rest', e)" rest' ] x "1.prems"
    obtain ms where "execAllFrom r pv' rest' e = Some ms" by auto
    with ex adv show ?thesis by (subst execAllFrom.simps) simp
  qed
qed

lemma minlens:
  "0 < minlen RE_AUTO_RENEW" "0 < minlen RE_ARBITRATION" "0 < minlen RE_CLASS_ACTION"
  "0 < minlen RE_CANCELLATION" "0 < minlen RE_FEES" "0 < minlen RE_THIRD_PARTY"
  "0 < minlen RE_SHARE" "0 < minlen RE_SELL" "0 < minlen RE_AFFILIATE" "0 < minlen RE_PARTNER"
  "0 < minlen RE_ADVERTISING" "0 < minlen RE_ANALYTICS" "0 < minlen RE_SHARE_WITH"
  "0 < minlen RE_SELL_TO" "0 < minlen RE_OUR_SOMETHING_PARTNERS" "0 < minlen sentenceEndings"
  by (simp_all add: regex_defs)

lemma execAll_total: "0 < minlen r \<Longrightarrow> \<exists>ms. execAll r s = Some ms"
  unfolding execAll_def by (rule execAllFrom_total)

lemma findAll_total: "0 < minlen r \<Longrightarrow> \<exists>ms. findAll r s = Some ms"
  using execAll_total [of r s] by (auto simp: findAll_def)

lemma countMatches_total: "0 < minlen r \<Longrightarrow> \<exists>n. countMatches r s = Some n"
  using execAll_total [of r s] by (auto simp: countMatches_def)

lemma sentenceBoundaries_total:
  "\<exists>ms :: rmatch list. sentenceBoundaries region
          = Some ([0] @ map (\<lambda>m. int (m_index m) + 1) ms @ [int (length region)])"
proof -
  obtain ms where "execAll sentenceEndings region = Some ms"
    using execAll_total [OF minlens(16), of region] by blast
  then have "sentenceBoundaries region
          = Some ([0] @ map (\<lambda>m. int (m_index m) + 1) ms @ [int (length region)])"
    by (simp add: sentenceBoundaries_def)
  then show ?thesis by (rule exI [where x = ms])
qed

lemma extractSentence_total: "\<exists>se. extractSentence text start end window = Some se"
proof -
  let ?region = "slice text (max 0 (start - 500)) (min (int (length text)) (end + 500))"
  obtain bs where "sentenceBoundaries ?region = Some bs"
    using sentenceBoundaries_total [of ?region] by blast
  then show ?thesis
    by (simp add: extractSentence_def Let_def split: prod.splits)
qed

lemma makeSnippet_total: "\<exists>sn. makeSnippet text start end window = Some sn"
  using extractSentence_total [of "text" start "end" window] by (auto simp: makeSnippet_def)

lemma pushHits_total:
  "\<exists>out. pushHits text ty ms hs = Some out
     \<and> set out \<subseteq> set hs \<union> {h. h_type h = ty \<and> h_start h \<le> h_end h}"
proof (induction ms arbitrary: hs)
  case Nil
  then show ?case by simp
next
  case (Cons m ms)
  obtain index match where m: "m = (index, match)" by (cases m) auto
  obtain sn where sn: "makeSnippet text (int index) (int index + int (length match)) SNIPPET_WINDOW = Some sn"
    using makeSnippet_total by blast
  let ?h = "\<lparr>h_type = ty, h_start = int index, h_end = int index + int (length match),
              h_text = match, h_snippet = sn\<rparr>"
  from Cons.IH [of "hs @ [?h]"] obtain out where
    "pushHits text ty ms (hs @ [?h]) = Some out"
    "set out \<subseteq> set (hs @ [?h]) \<union> {h. h_type h = ty \<and> h_start h \<le> h_end h}"
    by blast
  with m sn show ?case by (auto simp: Let_def)
qed

lemma pushAll_total:
  assumes "0 < minlen r"
  shows "\<exists>out. pushAll text ty r hs = Some out
     \<and> set out \<subseteq> set hs \<union> {h. h_type h = ty \<and> h_start h \<le> h_end h}"
proof -
  obtain ms where "findAll r text = Some ms"
    using findAll_total [OF assms] by blast
  then show ?thesis
    using pushHits_total [of "text" ty ms hs] by (simp add: pushAll_def)
qed

definition detected :: "RiskType set" where
  "detected = {auto_renewal, arbitration, class_action, cancellation, fees}"

definition spanOk :: "Hit \<Rightarrow> bool" where
  "spanOk h \<longleftrightarrow> h_type h \<in> detected \<and> h_start h \<le> h_end h"

lemma pushAll_ok:
  assumes "0 < minlen r" and "ty \<in> detected" and "list_all spanOk hs"
  shows "\<exists>out. pushAll text ty r hs = Some out \<and> list_all spanOk out"
proof -
  obtain out where out: "pushAll text ty r hs = Some out"
    "set out \<subseteq> set hs \<union> {h. h_type h = ty \<and> h_start h \<le> h_end h}"
    using pushAll_total [OF assms(1)] by blast
  have "list_all spanOk out"
    unfolding list_all_iff
  proof
    fix h assume "h \<in> set out"
    with out(2) have "h \<in> set hs \<or> (h_type h = ty \<and> h_start h \<le> h_end h)" by blast
    then show "spanOk h"
      using assms(2,3) by (auto simp: list_all_iff spanOk_def)
  qed
  with out(1) show ?thesis by blast
qed

lemma rawHits_total: "\<exists>hs. rawHits text = Some hs \<and> list_all spanOk hs"
proof -
  have d: "auto_renewal \<in> detected" "arbitration \<in> detected" "class_action \<in> detected"
    "cancellation \<in> detected" "fees \<in> detected"
    by (simp_all add: detected_def)
  obtain hs1 where a1: "pushAll text auto_renewal RE_AUTO_RENEW [] = Some hs1" "list_all spanOk hs1"
    using pushAll_ok [OF minlens(1) d(1), of "[]"] by auto
  obtain hs2 where a2: "pushAll text arbitration RE_ARBITRATION hs1 = Some hs2" "list_all spanOk hs2"
    using pushAll_ok [OF minlens(2) d(2) a1(2)] by blast
  obtain hs3 where a3: "pushAll text class_action RE_CLASS_ACTION hs2 = Some hs3" "list_all spanOk hs3"
    using pushAll_ok [OF minlens(3) d(3) a2(2)] by blast
  obtain hs4 where a4: "pushAll text cancellation RE_CANCELLATION hs3 = Some hs4" "list_all spanOk hs4"
    using pushAll_ok [OF minlens(4) d(4) a3(2)] by blast
  obtain hs5 where a5: "pushAll text fees RE_FEES hs4 = Some hs5" "list_all spanOk hs5"
    using pushAll_ok [OF minlens(5) d(5) a4(2)] by blast
  have "rawHits text = Some hs5"
    using a1(1) a2(1) a3(1) a4(1) a5(1) by (simp add: rawHits_def)
  with a5(2) show ?thesis by blast
qed


lemma set_insertBy: "set (insertBy cmp x ys) = insert x (set ys)"
  by (induction ys) auto

lemma set_jsSort: "set (jsSort cmp xs) = set xs"
  by (induction xs) (auto simp: jsSort_def set_insertBy)

lemma length_insertBy: "length (insertBy cmp x ys) = Suc (length ys)"
  by (induction ys) auto

lemma length_jsSort: "length (jsSort cmp xs) = length xs"
  by (induction xs) (auto simp: jsSort_def length_insertBy)

lemma sorted_insertBy_start:
  "sorted_wrt (\<lambda>a b. h_start a \<le> h_start b) ys \<Longrightarrow>
   sorted_wrt (\<lambda>a b. h_start a \<le> h_start b) (insertBy cmpHits x ys)"
proof (induction ys)
  case Nil
  then show ?case by simp
next
  case (Cons y ys)
  show ?case
  proof (cases "cmpHits x y \<le> 0")
    case True
    then have "h_start x \<le> h_start y"
      by (simp add: cmpHits_def split: if_splits)
    with True Cons.prems show ?thesis by auto
  next
    case False
    then have "h_start y \<le> h_start x"
      by (simp add: cmpHits_def split: if_splits)
    with False Cons show ?thesis by (auto simp: set_insertBy)
  qed
qed

lemma sorted_jsSort_start: "sorted_wrt (\<lambda>a b. h_start a \<le> h_start b) (jsSort cmpHits hs)"
proof (induction hs)
  case Nil
  then show ?case by (simp add: jsSort_def)
next
  case (Cons h hs)
  then show ?case
    using sorted_insertBy_start [of "jsSort cmpHits hs" h] by (simp add: jsSort_def)
qed

lemma set_dedupeStep: "set (dedupeStep out h) \<subseteq> insert h (set out)"
  by (auto simp: dedupeStep_def Let_def dest: in_set_butlastD)

lemma set_foldl_dedupeStep: "set (foldl dedupeStep out hs) \<subseteq> set out \<union> set hs"
proof (induction hs arbitrary: out)
  case Nil
  then show ?case by simp
next
  case (Cons h hs)
  from Cons.IH [of "dedupeStep out h"] set_dedupeStep [of out h] show ?case by auto
qed

lemma set_dedupeOverlaps: "set (dedupeOverlaps hs) \<subseteq> set hs"
  using set_foldl_dedupeStep [of "[]" "jsSort cmpHits hs"]
  by (simp add: dedupeOverlaps_def set_jsSort)

text \<open>The invariant of the loop: the accepted spans lie strictly one after the other.\<close>

lemma dedupeStep_chain:
  assumes ok: "\<forall>a\<in>set out. h_start a \<le> h_end a" "h_start h \<le> h_end h"
    and chain: "sorted_wrt (\<lambda>a b. h_end a < h_start b) out"
    and le: "out \<noteq> [] \<longrightarrow> h_start (last out) \<le> h_start h"
  shows "sorted_wrt (\<lambda>a b. h_end a < h_start b) (dedupeStep out h)
         \<and> dedupeStep out h \<noteq> []
         \<and> h_start (last (dedupeStep out h)) \<le> h_start h"
proof (cases out rule: rev_cases)
  case Nil
  then show ?thesis by (simp add: dedupeStep_def)
next
  case (snoc bl l)
  from chain snoc have bl: "sorted_wrt (\<lambda>a b. h_end a < h_start b) bl"
    and before: "\<forall>a\<in>set bl. h_end a < h_start l"
    by (simp_all add: sorted_wrt_append)
  from le snoc have ll: "h_start l \<le> h_start h" by simp
  from ok snoc have lok: "h_start l \<le> h_end l" by simp
  show ?thesis
  proof (cases "h_start h \<le> h_end l \<and> h_end h \<ge> h_start l")
    case False
    with ll ok(2) have far: "h_end l < h_start h" by linarith
    with before lok have "\<forall>a\<in>set (bl @ [l]). h_end a < h_start h" by fastforce
    with chain snoc False show ?thesis
      by (simp add: dedupeStep_def sorted_wrt_append)
  next
    case True
    show ?thesis
    proof (cases "h_end h - h_start h > h_end l - h_start l")
      case longer: True
      from before ll have "\<forall>a\<in>set bl. h_end a < h_start h" by fastforce
      with bl snoc True longer show ?thesis
        by (simp add: dedupeStep_def sorted_wrt_append)
    next
      case False
      with chain snoc True ll show ?thesis
        by (simp add: dedupeStep_def)
    qed
  qed
qed

lemma foldl_dedupeStep_chain:
  assumes "\<forall>a\<in>set out. h_start a \<le> h_end a" "\<forall>a\<in>set hs. h_start a \<le> h_end a"
    and "sorted_wrt (\<lambda>a b. h_end a < h_start b) out"
    and "sorted_wrt (\<lambda>a b. h_start a \<le> h_start b) hs"
    and "out \<noteq> [] \<longrightarrow> (\<forall>h\<in>set hs. h_start (last out) \<le> h_start h)"
  shows "sorted_wrt (\<lambda>a b. h_end a < h_start b) (foldl dedupeStep out hs)"
  using assms
proof (induction hs arbitrary: out)
  case Nil
  then show ?case by simp
next
  case (Cons h hs)
  have step: "sorted_wrt (\<lambda>a b. h_end a < h_start b) (dedupeStep out h)"
    "dedupeStep out h \<noteq> []" "h_start (last (dedupeStep out h)) \<le> h_start h"
    using dedupeStep_chain [of out h] Cons.prems by simp_all
  have ok': "\<forall>a\<in>set (dedupeStep out h). h_start a \<le> h_end a"
    using set_dedupeStep [of out h] Cons.prems(1,2) by auto
  have next_le: "\<forall>k\<in>set hs. h_start (last (dedupeStep out h)) \<le> h_start k"
    using step(3) Cons.prems(4) by fastforce
  have "sorted_wrt (\<lambda>a b. h_end a < h_start b) (foldl dedupeStep (dedupeStep out h) hs)"
    using Cons.IH [of "dedupeStep out h"] ok' step(1) next_le Cons.prems(2,4) by simp
  then show ?case by simp
qed

lemma dedupeOverlaps_chain:
  assumes "\<forall>a\<in>set hs. h_start a \<le> h_end a"
  shows "sorted_wrt (\<lambda>a b. h_end a < h_start b) (dedupeOverlaps hs)"
  unfolding dedupeOverlaps_def
  using foldl_dedupeStep_chain [of "[]" "jsSort cmpHits hs"] assms sorted_jsSort_start [of hs]
  by (simp add: set_jsSort)

lemma chain_sorted_start:
  assumes "sorted_wrt (\<lambda>a b. h_end a < h_start b) hs" "\<forall>a\<in>set hs. h_start a \<le> h_end a"
  shows "sorted_wrt (\<lambda>a b. h_start a < h_start b) hs"
  using assms by (induction hs) fastforce+

lemma buildHeatmap_total: "\<exists>hm. buildHeatmap text = Some hm"
proof -
  obtain n1 n2 n3 n4 n5 n6 n7 where
    "countMatches RE_THIRD_PARTY text = Some n1" "countMatches RE_SHARE text = Some n2"
    "countMatches RE_SELL text = Some n3" "countMatches RE_AFFILIATE text = Some n4"
    "countMatches RE_PARTNER text = Some n5" "countMatches RE_ADVERTISING text = Some n6"
    "countMatches RE_ANALYTICS text = Some n7"
    using countMatches_total [OF minlens(6)] countMatches_total [OF minlens(7)]
      countMatches_total [OF minlens(8)] countMatches_total [OF minlens(9)]
      countMatches_total [OF minlens(10)] countMatches_total [OF minlens(11)]
      countMatches_total [OF minlens(12)]
    by metis
  then obtain cs where cs: "heatmapCounts text = Some cs"
    by (simp add: heatmapCounts_def)
  obtain m1 m2 m3 where
    "execAll RE_SHARE_WITH text = Some m1" "execAll RE_SELL_TO text = Some m2"
    "execAll RE_OUR_SOMETHING_PARTNERS text = Some m3"
    using execAll_total [OF minlens(13)] execAll_total [OF minlens(14)]
      execAll_total [OF minlens(15)]
    by metis
  then obtain caps where "recipientCaptures text = Some caps"
    by (simp add: recipientCaptures_def)
  with cs show ?thesis by (simp add: buildHeatmap_def)
qed

lemma rulesScan_hits:
  "\<exists>r hs. rulesScan text = Some r \<and> rawHits text = Some hs \<and> list_all spanOk hs
     \<and> hits r = take MAX_HIGHLIGHTS (dedupeOverlaps hs)"
proof -
  obtain hs where hs: "rawHits text = Some hs" "list_all spanOk hs"
    using rawHits_total by blast
  obtain hm where hm: "buildHeatmap text = Some hm"
    using buildHeatmap_total by blast
  from hs hm show ?thesis by (simp add: rulesScan_def Let_def)
qed

subsection \<open>Snippets\<close>

lemma length_trim_le: "length (trim s) \<le> length s"
proof -
  have "length (trim s) \<le> length (dropWhile isSpace s)"
    unfolding trim_def using length_dropWhile_le [of isSpace "rev (dropWhile isSpace s)"] by simp
  also have "\<dots> \<le> length s" by (rule length_dropWhile_le)
  finally show ?thesis .
qed

lemma dropTrailing_Cons:
  "\<not> P x \<Longrightarrow> rev (dropWhile P (rev (x # xs))) = x # rev (dropWhile P (rev xs))"
  by (simp add: dropWhile_append)

lemma trim_keeps:
  assumes "c \<in> set s" "\<not> isSpace c"
  shows "trim s \<noteq> [] \<and> \<not> isSpace (hd (trim s))"
proof -
  let ?d = "dropWhile isSpace s"
  from assms have ne: "?d \<noteq> []" by (auto simp: dropWhile_eq_Nil_conv)
  then obtain x xs where d: "?d = x # xs" by (cases ?d) auto
  from ne have "\<not> isSpace (hd ?d)" by (rule hd_dropWhile)
  with d have "\<not> isSpace x" by simp
  then have "trim s = x # rev (dropWhile isSpace (rev xs))"
    unfolding trim_def d by (rule dropTrailing_Cons)
  with \<open>\<not> isSpace x\<close> show ?thesis by simp
qed

lemma length_slice_le:
  assumes "0 \<le> a" "0 \<le> b"
  shows "int (length (slice s a b)) \<le> b - a \<or> slice s a b = []"
  using assms by (auto simp: slice_def Let_def min_def)

lemma slice_holds:
  assumes "0 \<le> a" "a \<le> i" "i < b" "i < int (length s)"
  shows "s ! nat i \<in> set (slice s a b)"
proof -
  let ?to = "min b (int (length s))"
  from assms have sl: "slice s a b = take (nat (?to - a)) (drop (nat a) s)"
    by (simp add: slice_def Let_def min_def)
  from assms have k: "nat (i - a) < nat (?to - a)" "nat a + nat (i - a) = nat i"
    "nat (i - a) < length s - nat a" "nat a + nat (i - a) < length s"
    by (auto simp: min_def)
  have "take (nat (?to - a)) (drop (nat a) s) ! nat (i - a) = s ! nat i"
    using k by simp
  moreover have "nat (i - a) < length (take (nat (?to - a)) (drop (nat a) s))"
    using k by simp
  ultimately show ?thesis
    unfolding sl by (metis nth_mem)
qed

lemma findSentence_encloses:
  "findSentence bs h = Some (b0, b1) \<Longrightarrow> b0 \<le> h \<and> h < b1 \<and> b0 \<in> set bs"
  by (induction bs h rule: findSentence.induct) (auto split: if_splits)


lemma slice_inside:
  assumes "0 \<le> a" "a \<le> b" "b \<le> int (length s)"
  shows "length (slice s a b) = nat (b - a)"
    and "a \<le> i \<Longrightarrow> i < b \<Longrightarrow> slice s a b ! nat (i - a) = s ! nat i"
proof -
  from assms have sl: "slice s a b = take (nat (b - a)) (drop (nat a) s)"
    by (simp add: slice_def Let_def min_def)
  from assms show "length (slice s a b) = nat (b - a)"
    unfolding sl by auto
  assume "a \<le> i" "i < b"
  with assms have "nat (i - a) < nat (b - a)" "nat a + nat (i - a) = nat i"
    "nat a + nat (i - a) \<le> length s"
    by auto
  then show "slice s a b ! nat (i - a) = s ! nat i"
    unfolding sl by simp
qed

lemma extractSentence_props:
  assumes "0 \<le> start" "start < end" "end \<le> int (length text)" "0 \<le> window"
  shows "\<exists>sentence hitOffset.
           extractSentence text start end window = Some (sentence, hitOffset)
         \<and> 0 \<le> hitOffset
         \<and> (\<not> isSpace (text ! nat start) \<longrightarrow> sentence \<noteq> [] \<and> \<not> isSpace (hd sentence))"
proof -
  let ?searchStart = "max 0 (start - 500)"
  let ?searchEnd = "min (int (length text)) (end + 500)"
  let ?region = "slice text ?searchStart ?searchEnd"
  let ?hit = "start - ?searchStart"
  let ?fallback = "trim (slice text (max 0 (start - window)) (min (int (length text)) (end + window)))"
  obtain ms :: "rmatch list" where
    bs: "sentenceBoundaries ?region
           = Some ([0] @ map (\<lambda>m. int (m_index m) + 1) ms @ [int (length ?region)])"
    using sentenceBoundaries_total [of ?region] by blast
  let ?bs = "[0] @ map (\<lambda>m. int (m_index m) + 1) ms @ [int (length ?region)]"
  have nonneg: "\<forall>b\<in>set ?bs. 0 \<le> b" by auto
  from assms have range: "0 \<le> ?searchStart" "?searchStart \<le> ?searchEnd"
    "?searchEnd \<le> int (length text)" "?searchStart \<le> start" "start < ?searchEnd"
    by auto
  have len: "length ?region = nat (?searchEnd - ?searchStart)"
    using range(1-3) by (rule slice_inside(1))
  have at: "?region ! nat ?hit = text ! nat start"
    using range by (rule slice_inside(2))
  from range len have hit: "0 \<le> ?hit" "?hit < int (length ?region)"
    by linarith+
  obtain ss se where found:
    "(case findSentence ?bs ?hit of None \<Rightarrow> (0, int (length ?region)) | Some f \<Rightarrow> f) = (ss, se)"
    by (cases "case findSentence ?bs ?hit of None \<Rightarrow> (0, int (length ?region)) | Some f \<Rightarrow> f") auto
  have encl: "0 \<le> ss \<and> ss \<le> ?hit \<and> ?hit < se"
  proof (cases "findSentence ?bs ?hit")
    case None
    with found hit show ?thesis by simp
  next
    case (Some f)
    with found have "findSentence ?bs ?hit = Some (ss, se)" by simp
    from findSentence_encloses [OF this] nonneg show ?thesis by blast
  qed
  let ?sentence = "trim (slice ?region ss se)"
  let ?sentence' = "if length ?sentence < 30 then ?fallback else ?sentence"
  have res: "extractSentence text start end window = Some (?sentence', ?hit - ss)"
    using bs found by (simp add: extractSentence_def Let_def)
  have "\<not> isSpace (text ! nat start) \<Longrightarrow> ?sentence' \<noteq> [] \<and> \<not> isSpace (hd ?sentence')"
  proof -
    assume ns: "\<not> isSpace (text ! nat start)"
    have "?region ! nat ?hit \<in> set (slice ?region ss se)"
      using encl hit by (intro slice_holds) auto
    with at ns have one: "?sentence \<noteq> [] \<and> \<not> isSpace (hd ?sentence)"
      by (intro trim_keeps [where c = "text ! nat start"]) auto
    have "text ! nat start \<in> set (slice text (max 0 (start - window)) (min (int (length text)) (end + window)))"
      using assms by (intro slice_holds) auto
    with ns have two: "?fallback \<noteq> [] \<and> \<not> isSpace (hd ?fallback)"
      by (intro trim_keeps [where c = "text ! nat start"]) auto
    from one two show ?thesis by presburger
  qed
  moreover from encl have "0 \<le> ?hit - ss" by simp
  ultimately show ?thesis using res by blast
qed

lemma limitSentence_short: "length s \<le> 500 \<Longrightarrow> limitSentence s h = s"
  by (simp add: limitSentence_def)

text \<open>The test of line 133 compares with the length of the cut sentence, which the end of the
  cut never falls below: the closing marker is not appended.\<close>

lemma limitSentence_long:
  assumes "500 < length s" "0 \<le> h"
  shows "limitSentence s h =
           (if 0 < max 0 (h - 250) then ellipsis else [])
           @ trim (slice s (max 0 (h - 250)) (min (int (length s)) (h + 250)))"
proof -
  define a where "a = max 0 (h - 250)"
  define b where "b = min (int (length s)) (h + 250)"
  define cut where "cut = trim (slice s a b)"
  define prefixed where "prefixed = (if 0 < a then ellipsis @ cut else cut)"
  from assms have b: "250 \<le> b" by (simp add: b_def)
  have a: "0 \<le> a" by (simp add: a_def)
  have "int (length cut) \<le> int (length (slice s a b))"
    unfolding cut_def using length_trim_le [of "slice s a b"] by simp
  moreover have "int (length (slice s a b)) \<le> b - a \<or> slice s a b = []"
    using a b by (intro length_slice_le) auto
  ultimately have cut: "int (length cut) \<le> b - a \<or> length cut = 0"
    by auto
  have "int (length prefixed) \<le> b"
  proof (cases "0 < a")
    case True
    then have "int (length prefixed) = 1 + int (length cut)"
      by (simp add: prefixed_def ellipsis_def)
    with cut True b show ?thesis by linarith
  next
    case False
    then have "int (length prefixed) = int (length cut)"
      by (simp add: prefixed_def)
    with cut b False a show ?thesis by linarith
  qed
  then have no: "\<not> b < int (length prefixed)" by simp
  have "limitSentence s h = (if b < int (length prefixed) then prefixed @ ellipsis else prefixed)"
    using assms(1) unfolding limitSentence_def Let_def a_def b_def cut_def prefixed_def
    by (simp only: if_True)
  with no have "limitSentence s h = prefixed" by simp
  then show ?thesis
    unfolding prefixed_def cut_def a_def b_def by simp
qed

lemma limitSentence_length:
  assumes "0 \<le> h"
  shows "length (limitSentence s h) \<le> 500 + length ellipsis"
proof (cases "500 < length s")
  case False
  then show ?thesis by (simp add: limitSentence_short)
next
  case True
  define a where "a = max 0 (h - 250)"
  define b where "b = min (int (length s)) (h + 250)"
  from True assms have b: "250 \<le> b" by (simp add: b_def)
  have a: "0 \<le> a" by (simp add: a_def)
  have ba: "b - a \<le> 500" unfolding a_def b_def by linarith
  have "int (length (trim (slice s a b))) \<le> int (length (slice s a b))"
    using length_trim_le [of "slice s a b"] by simp
  moreover have "int (length (slice s a b)) \<le> b - a \<or> slice s a b = []"
    using a b by (intro length_slice_le) auto
  ultimately have "length (trim (slice s a b)) \<le> 500"
    using ba by auto
  then show ?thesis
    unfolding limitSentence_long [OF True assms] a_def [symmetric] b_def [symmetric]
    by simp
qed

lemma limitSentence_nonempty:
  assumes "s \<noteq> []" "\<not> isSpace (hd s)" "0 \<le> h"
  shows "limitSentence s h \<noteq> []"
proof (cases "500 < length s")
  case False
  with assms(1) show ?thesis by (simp add: limitSentence_short)
next
  case True
  show ?thesis
  proof (cases "0 < max 0 (h - 250)")
    case pre: True
    then have "limitSentence s h = ellipsis
        @ trim (slice s (max 0 (h - 250)) (min (int (length s)) (h + 250)))"
      unfolding limitSentence_long [OF True assms(3)] by (simp only: if_True)
    then show ?thesis by (simp add: ellipsis_def)
  next
    case False
    then have a: "max 0 (h - 250) = 0" by simp
    from assms(1) have "s ! nat 0 = hd s" by (simp add: hd_conv_nth)
    moreover have "s ! nat 0 \<in> set (slice s 0 (min (int (length s)) (h + 250)))"
      using True assms(3) by (intro slice_holds) auto
    ultimately have "hd s \<in> set (slice s 0 (min (int (length s)) (h + 250)))" by simp
    from trim_keeps [OF this assms(2)] show ?thesis
      unfolding limitSentence_long [OF True assms(3)] a by simp
  qed
qed

lemma trim_noop:
  assumes "s \<noteq> []" "\<not> isSpace (hd s)" "\<not> isSpace (last s)"
  shows "trim s = s"
proof -
  from assms(1,2) have "dropWhile isSpace s = s" by (cases s) auto
  moreover from assms(1,3) have "dropWhile isSpace (rev s) = rev s"
    by (cases "rev s") (auto simp: hd_rev [symmetric] simp del: hd_rev)
  ultimately show ?thesis by (simp add: trim_def)
qed

text \<open>A run of a code unit at which the pattern cannot start is passed over.\<close>

lemma execFrom_skip:
  assumes "\<And>pv rest i. ends r (pv, c # rest, i, None) = []"
  shows "execFrom r pv (replicate n c @ ys) i
         = execFrom r (if n = 0 then pv else Some c) ys (i + n)"
proof (induction n arbitrary: pv i)
  case 0
  then show ?case by simp
next
  case (Suc n)
  have "execFrom r pv (replicate (Suc n) c @ ys) i = execFrom r (Some c) (replicate n c @ ys) (i + 1)"
    by (simp add: assms)
  also have "\<dots> = execFrom r (Some c) ys (i + 1 + n)"
    using Suc.IH [of "Some c" "i + 1"] by simp
  finally show ?case by simp
qed

lemma execFrom_skip_end:
  assumes "\<And>pv rest i. ends r (pv, c # rest, i, None) = []"
  shows "execFrom r pv (replicate n c) i = execFrom r (if n = 0 then pv else Some c) [] (i + n)"
  using execFrom_skip [OF assms, of pv n "[]" i] by simp

subsection \<open>Recipients in the order of their first occurrence\<close>












subsection \<open>A scan with a single hit\<close>

lemma scan_of_single_hit:
  assumes "rawHits t = Some [h]"
  shows "map_option hits (rulesScan t) = Some [h]"
proof -
  obtain r hs where r: "rulesScan t = Some r" "rawHits t = Some hs"
    "hits r = take MAX_HIGHLIGHTS (dedupeOverlaps hs)"
    using rulesScan_hits [of t] by blast
  from r(2) assms have "hs = [h]" by simp
  with r(3) have "hits r = [h]" by (simp add: dedupe_defs MAX_HIGHLIGHTS_def)
  with r(1) show ?thesis by simp
qed

subsection \<open>Severity\<close>

text \<open>The order of the severities.\<close>

definition sevRank :: "Severity \<Rightarrow> nat" where
  "sevRank s = (case s of Low \<Rightarrow> 0 | Medium \<Rightarrow> 1 | High \<Rightarrow> 2)"

lemma find_insert_other:
  "\<not> P h \<Longrightarrow> find P (xs @ h # ys) = find P (xs @ ys)"
  by (induction xs) auto

lemma has_insert_other: "h_type h \<noteq> t \<Longrightarrow> has (xs @ h # ys) t = has (xs @ ys) t"
  by (auto simp: has_def list_ex_iff)

lemma has_insert_same: "h_type h = t \<Longrightarrow> has (xs @ h # ys) t"
  by (auto simp: has_def list_ex_iff)

lemma scoreToSeverity_mono: "a \<le> b \<Longrightarrow> sevRank (scoreToSeverity a) \<le> sevRank (scoreToSeverity b)"
  by (simp add: scoreToSeverity_def sevRank_def)

subsection \<open>Clearing the highlights\<close>

lemma marks_are_elements: "set (querySelectorAll d) \<subseteq> set (elementIds d)"
  by (induction d rule: querySelectorAll.induct) auto

lemma querySelectorAll_append:
  "querySelectorAll (xs @ ys) = querySelectorAll xs @ querySelectorAll ys"
  by (induction xs rule: querySelectorAll.induct) auto

lemma elementIds_append: "elementIds (xs @ ys) = elementIds xs @ elementIds ys"
  by (induction xs rule: elementIds.induct) auto

lemma textContent_append: "textContent (xs @ ys) = textContent xs @ textContent ys"
  by (induction xs rule: textContent.induct) auto

lemma textContent_unwrap: "textContent (unwrap m d) = textContent d"
  by (induction m d rule: unwrap.induct) (auto simp: textContent_append)

lemma elementIds_unwrap:
  "distinct (elementIds d) \<Longrightarrow> elementIds (unwrap m d) = filter (\<lambda>j. j \<noteq> m) (elementIds d)"
proof (induction m d rule: unwrap.induct)
  case (1 m)
  then show ?case by simp
next
  case (2 m t ns)
  then show ?case by simp
next
  case (3 m i localName attrs cs ns)
  show ?case
  proof (cases "i = m")
    case True
    with "3.prems" have "m \<notin> set (elementIds cs)" "m \<notin> set (elementIds ns)" by auto
    then have "filter (\<lambda>j. j \<noteq> m) (elementIds cs) = elementIds cs"
      "filter (\<lambda>j. j \<noteq> m) (elementIds ns) = elementIds ns"
      by (auto intro: filter_True)
    with True show ?thesis by (simp add: elementIds_append)
  next
    case False
    with "3.prems" "3.IH" show ?thesis by simp
  qed
qed

lemma querySelectorAll_unwrap:
  "distinct (elementIds d) \<Longrightarrow>
   querySelectorAll (unwrap m d) = filter (\<lambda>j. j \<noteq> m) (querySelectorAll d)"
proof (induction m d rule: unwrap.induct)
  case (1 m)
  then show ?case by simp
next
  case (2 m t ns)
  then show ?case by simp
next
  case (3 m i localName attrs cs ns)
  show ?case
  proof (cases "i = m")
    case True
    with "3.prems" have "m \<notin> set (elementIds cs)" "m \<notin> set (elementIds ns)" by auto
    with marks_are_elements have "m \<notin> set (querySelectorAll cs)" "m \<notin> set (querySelectorAll ns)"
      by blast+
    then have "filter (\<lambda>j. j \<noteq> m) (querySelectorAll cs) = querySelectorAll cs"
      "filter (\<lambda>j. j \<noteq> m) (querySelectorAll ns) = querySelectorAll ns"
      by (auto intro: filter_True)
    with True show ?thesis by (simp add: querySelectorAll_append)
  next
    case False
    with "3.prems" "3.IH" show ?thesis by simp
  qed
qed

lemma distinct_marks: "distinct (elementIds d) \<Longrightarrow> distinct (querySelectorAll d)"
proof (induction d rule: querySelectorAll.induct)
  case 1
  then show ?case by simp
next
  case (2 t ns)
  then show ?case by simp
next
  case (3 i localName attrs cs ns)
  then show ?case
    using marks_are_elements [of cs] marks_are_elements [of ns] by auto
qed

lemma clear_loop:
  assumes "distinct (elementIds d)" "querySelectorAll d = ms"
  shows "\<exists>d'. foldl clearStep (d, n) ms = (d', n + length ms)
              \<and> querySelectorAll d' = [] \<and> textContent d' = textContent d"
  using assms
proof (induction ms arbitrary: d n)
  case Nil
  then show ?case by simp
next
  case (Cons m ms)
  from Cons.prems(2) marks_are_elements [of d] have attached: "m \<in> set (elementIds d)"
    by auto
  from Cons.prems have "distinct (m # ms)"
    using distinct_marks [of d] by simp
  then have rest: "filter (\<lambda>j. j \<noteq> m) (m # ms) = ms"
    by (auto intro: filter_True)
  have d1: "distinct (elementIds (unwrap m d))"
    using Cons.prems(1) by (simp add: elementIds_unwrap)
  have q1: "querySelectorAll (unwrap m d) = ms"
    using Cons.prems rest by (simp add: querySelectorAll_unwrap)
  from Cons.IH [OF d1 q1, of "n + 1"] obtain d' where
    "foldl clearStep (unwrap m d, n + 1) ms = (d', n + 1 + length ms)"
    "querySelectorAll d' = []" "textContent d' = textContent (unwrap m d)"
    by blast
  moreover from attached have "clearStep (d, n) m = (unwrap m d, n + 1)"
    by (simp add: clearStep_def)
  ultimately show ?case
    by (simp add: textContent_unwrap)
qed

section \<open>Evaluation on concrete inputs\<close>

text \<open>The text of the scenario of the specification.\<close>

definition scenario :: jstr where
  "scenario = ascii ''This agreement automatically renews for $9.99/month unless cancelled.''"

lemma scenario_rawHits:
  "rawHits scenario =
     Some [\<lparr>h_type = auto_renewal, h_start = 15, h_end = 35,
            h_text = ascii ''automatically renews'', h_snippet = scenario\<rparr>]"
  by (simp add: scenario_def char_defs regex_defs match_defs string_defs snippet_defs scan_defs)

lemma scenario_heatmap:
  "buildHeatmap scenario =
     Some \<lparr>counts = \<lparr>third_party = 0, share = 0, sell = 0, affiliate = 0, partner = 0,
                      advertising = 0, analytics = 0\<rparr>,
           level = Low, topRecipients = []\<rparr>"
  by (simp add: scenario_def char_defs regex_defs match_defs string_defs heatmap_defs jsSort_def)

lemma scenario_near:
  "findPriceAndCadenceNearby scenario 15 35 160 =
     \<lparr>price = Some (ascii ''$9.99''), cadence = Some (ascii ''month'')\<rparr>"
  by (simp add: scenario_def char_defs regex_defs match_defs string_defs severity_defs)

lemma scenario_no_cancellation: "findAll RE_CANCELLATION scenario = Some []"
  by (simp add: scenario_def char_defs regex_defs match_defs)

lemma scenario_scan:
  "rulesScan scenario =
     Some \<lparr>hits = [\<lparr>h_type = auto_renewal, h_start = 15, h_end = 35,
                     h_text = ascii ''automatically renews'', h_snippet = scenario\<rparr>],
           severity = Medium,
           hero = Some (ascii ''Auto-renews at $9.99/month '' @ [8212]
                        @ ascii '' set a cancel reminder.''),
           heatmap = \<lparr>counts = \<lparr>third_party = 0, share = 0, sell = 0, affiliate = 0,
                                    partner = 0, advertising = 0, analytics = 0\<rparr>,
                       level = Low, topRecipients = []\<rparr>\<rparr>"
  by (simp add: rulesScan_def scenario_rawHits scenario_heatmap dedupe_defs MAX_HIGHLIGHTS_def
      computeSeverity_def selectHero_def has_def scoreToSeverity_def scenario_near ascii_def)

text \<open>Two texts of one hit each: 300 times the letter x, a short sentence or a word, and 300
  times the letter x again.\<close>

definition buried :: jstr where
  "buried = replicate 300 120 @ ascii ''. automatically renews. '' @ replicate 300 120"

definition padded :: jstr where
  "padded = replicate 300 120 @ ascii '' fee '' @ replicate 300 120"

lemma x_starts_nothing:
  "ends sentenceEndings (pv, 120 # rest, i, None) = []"
  "ends RE_AUTO_RENEW (pv, 120 # rest, i, None) = []"
  "ends RE_ARBITRATION (pv, 120 # rest, i, None) = []"
  "ends RE_CLASS_ACTION (pv, 120 # rest, i, None) = []"
  "ends RE_CANCELLATION (pv, 120 # rest, i, None) = []"
  "ends RE_FEES (pv, 120 # rest, i, None) = []"
  by (simp_all add: regex_defs char_defs)

lemmas skip_x = x_starts_nothing [THEN execFrom_skip] x_starts_nothing [THEN execFrom_skip_end]

lemmas ends_unfold = arg_cong [where f = ends, OF sentenceEndings_def]
  arg_cong [where f = ends, OF RE_AUTO_RENEW_def] arg_cong [where f = ends, OF RE_ARBITRATION_def]
  arg_cong [where f = ends, OF RE_CLASS_ACTION_def]
  arg_cong [where f = ends, OF RE_CANCELLATION_def] arg_cong [where f = ends, OF RE_FEES_def]

lemma buried_auto: "findAll RE_AUTO_RENEW buried = Some [(302, ascii ''automatically renews'')]"
  by (simp add: buried_def match_defs skip_x ends_unfold char_defs)

lemma padded_fee: "findAll RE_FEES padded = Some [(301, ascii ''fee'')]"
  by (simp add: padded_def match_defs skip_x ends_unfold char_defs)

lemma buried_boundaries: "sentenceBoundaries buried = Some [0, 301, 323, 624]"
  by (simp add: buried_def sentenceBoundaries_def match_defs skip_x ends_unfold char_defs)

lemma padded_boundaries: "sentenceBoundaries padded = Some [0, 605]"
  by (simp add: padded_def sentenceBoundaries_def match_defs skip_x ends_unfold char_defs)

lemma buried_length: "length buried = 624"
  by (simp add: buried_def ascii_def)

lemma buried_region: "slice buried 0 624 = buried"
  by (simp add: slice_def buried_length)

lemma buried_sentence: "trim (slice buried 301 323) = ascii ''automatically renews.''"
  by (simp add: buried_def slice_def trim_def isSpace_def ascii_def)

lemma buried_window:
  "trim (slice buried 52 572)
     = replicate 248 120 @ ascii ''. automatically renews. '' @ replicate 248 120"
proof -
  have "slice buried 52 572
     = replicate 248 120 @ ascii ''. automatically renews. '' @ replicate 248 120"
    by (simp add: buried_def slice_def ascii_def)
  moreover have "trim (replicate 248 120 @ ascii ''. automatically renews. '' @ replicate 248 120)
     = replicate 248 120 @ ascii ''. automatically renews. '' @ replicate 248 120"
    by (rule trim_noop) (simp_all add: isSpace_def ascii_def)
  ultimately show ?thesis by simp
qed

lemma buried_extract:
  "extractSentence buried 302 322 SNIPPET_WINDOW
     = Some (replicate 248 120 @ ascii ''. automatically renews. '' @ replicate 248 120, 1)"
  by (simp add: extractSentence_def SNIPPET_WINDOW_def buried_length buried_region
      buried_boundaries buried_sentence buried_window ascii_def)

lemma buried_cut:
  "trim (slice (replicate 248 120 @ ascii ''. automatically renews. '' @ replicate 248 120) 0 251)
     = replicate 248 120 @ ascii ''. a''"
proof -
  have "slice (replicate 248 120 @ ascii ''. automatically renews. '' @ replicate 248 120) 0 251
     = replicate 248 120 @ ascii ''. a''"
    by (simp add: slice_def ascii_def)
  moreover have "trim (replicate 248 120 @ ascii ''. a'') = replicate 248 120 @ ascii ''. a''"
    by (rule trim_noop) (simp_all add: isSpace_def ascii_def)
  ultimately show ?thesis by simp
qed

lemma buried_snippet:
  "makeSnippet buried 302 322 SNIPPET_WINDOW = Some (replicate 248 120 @ ascii ''. a'')"
proof -
  have "limitSentence
          (replicate 248 120 @ ascii ''. automatically renews. '' @ replicate 248 120) 1
        = replicate 248 120 @ ascii ''. a''"
    using buried_cut by (simp add: limitSentence_def ascii_def ellipsis_def)
  then show ?thesis by (simp add: makeSnippet_def buried_extract)
qed


lemma buried_others:
  "findAll RE_ARBITRATION buried = Some []" "findAll RE_CLASS_ACTION buried = Some []"
  "findAll RE_CANCELLATION buried = Some []" "findAll RE_FEES buried = Some []"
  by (simp_all add: buried_def match_defs skip_x ends_unfold char_defs)

lemma padded_others:
  "findAll RE_AUTO_RENEW padded = Some []" "findAll RE_ARBITRATION padded = Some []"
  "findAll RE_CLASS_ACTION padded = Some []" "findAll RE_CANCELLATION padded = Some []"
  by (simp_all add: padded_def match_defs skip_x ends_unfold char_defs)

lemma padded_length: "length padded = 605"
  by (simp add: padded_def ascii_def)

lemma padded_trim: "trim padded = padded"
  unfolding padded_def by (rule trim_noop) (simp_all add: isSpace_def ascii_def)

lemma padded_region: "slice padded 0 605 = padded"
  by (simp add: slice_def padded_length)

lemma padded_extract: "extractSentence padded 301 304 SNIPPET_WINDOW = Some (padded, 301)"
  by (simp add: extractSentence_def SNIPPET_WINDOW_def padded_length padded_region
      padded_boundaries padded_trim)

lemma padded_cut:
  "trim (slice padded 51 551) = replicate 249 120 @ ascii '' fee '' @ replicate 246 120"
proof -
  have "slice padded 51 551 = replicate 249 120 @ ascii '' fee '' @ replicate 246 120"
    by (simp add: padded_def slice_def ascii_def)
  moreover have "trim (replicate 249 120 @ ascii '' fee '' @ replicate 246 120)
      = replicate 249 120 @ ascii '' fee '' @ replicate 246 120"
    by (rule trim_noop) (simp_all add: isSpace_def ascii_def)
  ultimately show ?thesis by simp
qed

lemma padded_snippet:
  "makeSnippet padded 301 304 SNIPPET_WINDOW
     = Some (ellipsis @ replicate 249 120 @ ascii '' fee '' @ replicate 246 120)"
proof -
  have "limitSentence padded 301 = ellipsis @ replicate 249 120 @ ascii '' fee '' @ replicate 246 120"
    using padded_cut by (simp add: limitSentence_def padded_length ascii_def ellipsis_def)
  then show ?thesis by (simp add: makeSnippet_def padded_extract)
qed

lemma buried_rawHits:
  "rawHits buried =
     Some [\<lparr>h_type = auto_renewal, h_start = 302, h_end = 322,
            h_text = ascii ''automatically renews'',
            h_snippet = replicate 248 120 @ ascii ''. a''\<rparr>]"
proof -
  have "int (length (ascii ''automatically renews'')) = 20" by (simp add: ascii_def)
  then show ?thesis
    by (simp add: rawHits_def pushAll_def buried_auto buried_others buried_snippet)
qed

lemma padded_rawHits:
  "rawHits padded =
     Some [\<lparr>h_type = fees, h_start = 301, h_end = 304, h_text = ascii ''fee'',
            h_snippet = ellipsis @ replicate 249 120 @ ascii '' fee '' @ replicate 246 120\<rparr>]"
proof -
  have "int (length (ascii ''fee'')) = 3" by (simp add: ascii_def)
  then show ?thesis
    by (simp add: rawHits_def pushAll_def padded_fee padded_others padded_snippet)
qed

text \<open>A page with three marks of ours, one inside another, and one \<open>mark\<close> element that is
  not ours.\<close>

definition page :: document where
  "page =
     [Element 1 ''p'' []
        [Text (ascii ''A ''),
         Element 2 ''mark'' [(''data-tc'', ''risk'')] [Text (ascii ''fee'')],
         Text (ascii '' and '')],
      Element 3 ''mark'' [(''data-tc'', ''risk'')]
        [Text (ascii ''you may ''),
         Element 4 ''mark'' [(''data-tc'', ''risk'')] [Text (ascii ''cancel'')]],
      Element 5 ''mark'' [] [Text (ascii ''.'')]]"

section \<open>The claims\<close>

text \<open>
  C1. For every text the scan returns, and the spans of its result are sorted by start, lie
  strictly one after the other (each ends before the next one starts), and are at most 50.
\<close>

theorem C1_resolved_spans:
  "\<exists>r. rulesScan text = Some r
     \<and> sorted_wrt (\<lambda>a b. h_start a \<le> h_start b) (hits r)
     \<and> sorted_wrt (\<lambda>a b. h_end a < h_start b) (hits r)
     \<and> length (hits r) \<le> 50"
proof -
  obtain r hs where r: "rulesScan text = Some r" "list_all spanOk hs"
    "hits r = take MAX_HIGHLIGHTS (dedupeOverlaps hs)"
    using rulesScan_hits by blast
  from r(2) have ok: "\<forall>a\<in>set hs. h_start a \<le> h_end a"
    by (simp add: list_all_iff spanOk_def)
  then have chain: "sorted_wrt (\<lambda>a b. h_end a < h_start b) (dedupeOverlaps hs)"
    by (rule dedupeOverlaps_chain)
  from ok set_dedupeOverlaps [of hs] have "\<forall>a\<in>set (dedupeOverlaps hs). h_start a \<le> h_end a"
    by blast
  with chain have "sorted_wrt (\<lambda>a b. h_start a < h_start b) (dedupeOverlaps hs)"
    by (rule chain_sorted_start)
  then have "sorted_wrt (\<lambda>a b. h_start a \<le> h_start b) (dedupeOverlaps hs)"
    by (rule sorted_wrt_mono_rel [rotated]) simp
  with chain r(1,3) show ?thesis
    by (auto simp: MAX_HIGHLIGHTS_def intro: sorted_wrt_take)
qed

text \<open>
  C2, as the code has it. For the scenario text the scan finds the auto-renewal span \<open>[15, 35)\<close>,
  "automatically renews", and nothing else: \<open>\bcancel(?:lation)?\b\<close> does not match inside
  "cancelled", since no word boundary follows "cancel" there. A price and a cadence stand near
  the span, so the score is 3, the severity is Medium and the hero line is the auto-renewal
  line with "$9.99/month".
\<close>

theorem C2_scenario_scan:
  "findAll RE_CANCELLATION scenario = Some [] \<and>
   findPriceAndCadenceNearby scenario 15 35 160 =
     \<lparr>price = Some (ascii ''$9.99''), cadence = Some (ascii ''month'')\<rparr> \<and>
   map_option (\<lambda>r. (map (\<lambda>h. (h_type h, h_start h, h_end h, h_text h)) (hits r),
                       severity r, hero r)) (rulesScan scenario) =
     Some ([(auto_renewal, 15, 35, ascii ''automatically renews'')], Medium,
           Some (ascii ''Auto-renews at $9.99/month '' @ [8212]
                 @ ascii '' set a cancel reminder.''))"
  by (simp add: scenario_no_cancellation scenario_near scenario_scan)

text \<open>
  C2 as the specification words it fails on this text: the scan has no cancellation span, the
  severity is not High and the hero line is not the cancellation warning.
\<close>

theorem C2_counterexample:
  "cancellation \<notin> h_type ` set (hits (the (rulesScan scenario))) \<and>
   severity (the (rulesScan scenario)) \<noteq> High \<and>
   hero (the (rulesScan scenario)) \<noteq> Some HERO_CANCELLATION"
  by (simp add: scenario_scan HERO_CANCELLATION_def ascii_def)

text \<open>
  C3. Given the spans \<open>[10, 20)\<close> of type fees and \<open>[15, 25)\<close> of type cancellation, in
  either order, the resolver returns the first alone: both have length 10, and on a tie the
  span that sorts first stays.
\<close>

theorem C3_tie_keeps_first_sorted:
  "dedupeOverlaps
     [\<lparr>h_type = fees, h_start = 10, h_end = 20, h_text = t1, h_snippet = s1\<rparr>,
      \<lparr>h_type = cancellation, h_start = 15, h_end = 25, h_text = t2, h_snippet = s2\<rparr>]
     = [\<lparr>h_type = fees, h_start = 10, h_end = 20, h_text = t1, h_snippet = s1\<rparr>]
   \<and> dedupeOverlaps
     [\<lparr>h_type = cancellation, h_start = 15, h_end = 25, h_text = t2, h_snippet = s2\<rparr>,
      \<lparr>h_type = fees, h_start = 10, h_end = 20, h_text = t1, h_snippet = s1\<rparr>]
     = [\<lparr>h_type = fees, h_start = 10, h_end = 20, h_text = t1, h_snippet = s1\<rparr>]"
  by (simp add: dedupe_defs)

text \<open>
  C4. The claim asks for a cut of 250 code units on each side of the hit, with an ellipsis
  marker wherever the sentence was cut. The scan does otherwise on two texts it finds a span
  in. In \<open>buried\<close> the sentence of the hit is shorter than 30, so the window of 520 code units
  around the hit takes its place; the hit starts at offset 250 of that window, but the cut is
  made around offset 1, where the hit started in the short sentence: the snippet is the first
  251 code units of the window, it ends before the hit is complete, and no marker follows it.
  In \<open>padded\<close> the sentence of 605 code units is cut to \<open>[51, 551)\<close> and marked at its start
  only.
\<close>

theorem C4_snippet_cut_astray_and_unmarked:
  "map_option hits (rulesScan buried) =
     Some [\<lparr>h_type = auto_renewal, h_start = 302, h_end = 322,
            h_text = ascii ''automatically renews'',
            h_snippet = replicate 248 120 @ ascii ''. a''\<rparr>] \<and>
   extractSentence buried 302 322 SNIPPET_WINDOW =
     Some (replicate 248 120 @ ascii ''. automatically renews. '' @ replicate 248 120, 1) \<and>
   map_option hits (rulesScan padded) =
     Some [\<lparr>h_type = fees, h_start = 301, h_end = 304, h_text = ascii ''fee'',
            h_snippet = ellipsis @ replicate 249 120 @ ascii '' fee '' @ replicate 246 120\<rparr>] \<and>
   extractSentence padded 301 304 SNIPPET_WINDOW = Some (padded, 301)"
  by (simp add: scan_of_single_hit [OF buried_rawHits] scan_of_single_hit [OF padded_rawHits]
      buried_extract padded_extract)

text \<open>
  C5. The scan of the empty string returns: no spans, severity Low, no hero line, a heatmap
  with every count 0 and level Low, and no recipients.
\<close>

theorem C5_scan_empty:
  "rulesScan [] =
     Some \<lparr>hits = [], severity = Low, hero = None,
           heatmap = \<lparr>counts = \<lparr>third_party = 0, share = 0, sell = 0, affiliate = 0,
                                    partner = 0, advertising = 0, analytics = 0\<rparr>,
                       level = Low, topRecipients = []\<rparr>\<rparr>"
  by (simp add: char_defs regex_defs match_defs string_defs snippet_defs dedupe_defs
      heatmap_defs severity_defs scan_defs)

text \<open>
  C6, as the code has it. The resolver does not validate the spans it is given. A span alone is returned
  as it is, malformed or not; and when every input span has \<open>start \<le> end\<close> the spans of the
  result lie strictly one after the other.
\<close>

theorem C6_resolver_no_validation:
  "dedupeOverlaps [h] = [h] \<and>
   ((\<forall>a\<in>set hs. h_start a \<le> h_end a) \<longrightarrow>
      sorted_wrt (\<lambda>a b. h_end a < h_start b) (dedupeOverlaps hs))"
  using dedupeOverlaps_chain [of hs] by (simp add: dedupe_defs)

theorem C6_witness:
  "dedupeOverlaps [\<lparr>h_type = fees, h_start = 7, h_end = 7, h_text = [], h_snippet = []\<rparr>]
     = [\<lparr>h_type = fees, h_start = 7, h_end = 7, h_text = [], h_snippet = []\<rparr>] \<and>
   sorted_wrt (\<lambda>a b. h_end a < h_start b)
     (dedupeOverlaps
        [\<lparr>h_type = fees, h_start = 9, h_end = 12, h_text = [], h_snippet = []\<rparr>,
         \<lparr>h_type = fees, h_start = 7, h_end = 7, h_text = [], h_snippet = []\<rparr>])"
  using C6_resolver_no_validation
    [of "\<lparr>h_type = fees, h_start = 7, h_end = 7, h_text = [], h_snippet = []\<rparr>"
        "[\<lparr>h_type = fees, h_start = 9, h_end = 12, h_text = [], h_snippet = []\<rparr>,
          \<lparr>h_type = fees, h_start = 7, h_end = 7, h_text = [], h_snippet = []\<rparr>]"]
  by simp

text \<open>
  C6 as the specification words it fails: given \<open>[5, 10)\<close> and the malformed span with start 6
  and end 3, the resolver returns both, the malformed one included, and the first ends after
  the second starts.
\<close>

theorem C6_counterexample:
  "dedupeOverlaps
     [\<lparr>h_type = fees, h_start = 5, h_end = 10, h_text = [], h_snippet = []\<rparr>,
      \<lparr>h_type = cancellation, h_start = 6, h_end = 3, h_text = [], h_snippet = []\<rparr>]
   = [\<lparr>h_type = fees, h_start = 5, h_end = 10, h_text = [], h_snippet = []\<rparr>,
      \<lparr>h_type = cancellation, h_start = 6, h_end = 3, h_text = [], h_snippet = []\<rparr>]
   \<and> \<not> sorted_wrt (\<lambda>a b. h_end a \<le> h_start b)
     (dedupeOverlaps
        [\<lparr>h_type = fees, h_start = 5, h_end = 10, h_text = [], h_snippet = []\<rparr>,
         \<lparr>h_type = cancellation, h_start = 6, h_end = 3, h_text = [], h_snippet = []\<rparr>])"
  by (simp add: dedupe_defs)


text \<open>
  C8. Putting an arbitration span anywhere into a list of spans that has none does not lower
  the severity.
\<close>

theorem C8_arbitration_monotone:
  assumes "\<not> has (xs @ ys) arbitration" and "h_type h = arbitration"
  shows "sevRank (computeSeverity (xs @ ys) fullText)
         \<le> sevRank (computeSeverity (xs @ h # ys) fullText)"
proof -
  have f: "find (\<lambda>h. h_type h = auto_renewal) (xs @ h # ys)
           = find (\<lambda>h. h_type h = auto_renewal) (xs @ ys)"
    using assms(2) by (intro find_insert_other) simp
  have o: "has (xs @ h # ys) class_action = has (xs @ ys) class_action"
    "has (xs @ h # ys) cancellation = has (xs @ ys) cancellation"
    "has (xs @ h # ys) fees = has (xs @ ys) fees"
    using assms(2) by (simp_all add: has_insert_other)
  have a: "has (xs @ h # ys) arbitration"
    using assms(2) by (rule has_insert_same)
  show ?thesis
    unfolding computeSeverity_def Let_def f o
    using a assms(1)
    by (auto intro!: scoreToSeverity_mono split: option.splits)
qed

theorem C8_witness:
  "\<not> has [\<lparr>h_type = fees, h_start = 0, h_end = 3, h_text = ascii ''fee'', h_snippet = ascii ''fee''\<rparr>]
         arbitration \<and>
   sevRank (computeSeverity
     [\<lparr>h_type = fees, h_start = 0, h_end = 3, h_text = ascii ''fee'', h_snippet = ascii ''fee''\<rparr>]
     (ascii ''fee AAA''))
   \<le> sevRank (computeSeverity
     [\<lparr>h_type = fees, h_start = 0, h_end = 3, h_text = ascii ''fee'', h_snippet = ascii ''fee''\<rparr>,
      \<lparr>h_type = arbitration, h_start = 4, h_end = 7, h_text = ascii ''AAA'', h_snippet = ascii ''fee AAA''\<rparr>]
     (ascii ''fee AAA''))"
proof -
  let ?f = "\<lparr>h_type = fees, h_start = 0, h_end = 3, h_text = ascii ''fee'', h_snippet = ascii ''fee''\<rparr>"
  let ?a = "\<lparr>h_type = arbitration, h_start = 4, h_end = 7, h_text = ascii ''AAA'',
             h_snippet = ascii ''fee AAA''\<rparr>"
  have none: "\<not> has ([?f] @ []) arbitration" by (simp add: has_def)
  have arb: "h_type ?a = arbitration" by simp
  from C8_arbitration_monotone [OF none arb, of "ascii ''fee AAA''"] none show ?thesis
    by simp
qed

text \<open>
  C9. In a document whose nodes are distinct objects, \<open>clearHighlights\<close> returns the number of
  marks that were in it and leaves a document with no mark and the same text; called again on
  that document it returns 0 and changes nothing.
\<close>

theorem C9_clear_idempotent:
  assumes "distinct (elementIds doc)"
  shows "\<exists>doc'. clearHighlights doc = (doc', length (querySelectorAll doc))
           \<and> querySelectorAll doc' = []
           \<and> textContent doc' = textContent doc
           \<and> clearHighlights doc' = (doc', 0)"
proof -
  from clear_loop [OF assms refl, of 0] obtain doc' where
    r: "clearHighlights doc = (doc', length (querySelectorAll doc))"
      "querySelectorAll doc' = []" "textContent doc' = textContent doc"
    by (auto simp: clearHighlights_def)
  from r(2) have "clearHighlights doc' = (doc', 0)"
    by (simp add: clearHighlights_def)
  with r show ?thesis by blast
qed

theorem C9_witness:
  "distinct (elementIds page) \<and>
   clearHighlights page =
     ([Element 1 ''p'' [] [Text (ascii ''A ''), Text (ascii ''fee''), Text (ascii '' and '')],
       Text (ascii ''you may ''), Text (ascii ''cancel''),
       Element 5 ''mark'' [] [Text (ascii ''.'')]], 3) \<and>
   clearHighlights (fst (clearHighlights page)) = (fst (clearHighlights page), 0)"
proof -
  have d: "distinct (elementIds page)" by (simp add: page_def)
  have c: "clearHighlights page =
     ([Element 1 ''p'' [] [Text (ascii ''A ''), Text (ascii ''fee''), Text (ascii '' and '')],
       Text (ascii ''you may ''), Text (ascii ''cancel''),
       Element 5 ''mark'' [] [Text (ascii ''.'')]], 3)"
    by (simp add: page_def clearHighlights_def clearStep_def isOurMark_def MARK_ATTR_def
        MARK_ATTR_VAL_def)
  from C9_clear_idempotent [OF d] d c show ?thesis by auto
qed

text \<open>
  C10. For every text the scan returns, and every span of its result has one of the five
  types auto_renewal, arbitration, class_action, cancellation and fees: none has the type
  data_sharing.
\<close>

theorem C10_no_data_sharing_span:
  "\<exists>r. rulesScan text = Some r
     \<and> (\<forall>h\<in>set (hits r). h_type h \<noteq> data_sharing
            \<and> h_type h \<in> {auto_renewal, arbitration, class_action, cancellation, fees})"
proof -
  obtain r hs where r: "rulesScan text = Some r" "list_all spanOk hs"
    "hits r = take MAX_HIGHLIGHTS (dedupeOverlaps hs)"
    using rulesScan_hits by blast
  have "set (hits r) \<subseteq> set hs"
    using set_dedupeOverlaps [of hs] set_take_subset [of MAX_HIGHLIGHTS "dedupeOverlaps hs"] r(3)
    by auto
  with r(2) have "\<forall>h\<in>set (hits r). h_type h \<in> detected"
    by (auto simp: list_all_iff spanOk_def)
  with r(1) show ?thesis by (auto simp: detected_def)
qed

theorem C10_witness:
  "map h_type (hits (the (rulesScan scenario))) = [auto_renewal] \<and>
   list_all (\<lambda>h. h_type h \<noteq> data_sharing) (hits (the (rulesScan scenario)))"
  using C10_no_data_sharing_span [of scenario] by (auto simp: scenario_scan)

end
